theory Spec2Isabelle
  imports Complex_Main "HOL-Library.Stream" "HOL-Library.Multiset"
begin

section \<open>The OpenEvolve runner: island-based evolutionary search\<close>

text \<open>
  A shallow embedding of \<^verbatim>\<open>packages/discord-bot/src/agents/openevolve-runner.py\<close>:
  the classes \<^verbatim>\<open>Candidate\<close>, \<^verbatim>\<open>GenerationStats\<close> and \<^verbatim>\<open>SimpleEvolver\<close> and the functions
  \<^verbatim>\<open>run_evolution\<close> and \<^verbatim>\<open>continue_evolution\<close>.

  Conventions of the embedding.
  \<^item> Python \<^verbatim>\<open>float\<close> values (fitness, novelty, rates, statistics) are exact reals. Every
    property below uses only the order of these numbers and sums of non-negative terms.
  \<^item> Python \<^verbatim>\<open>int\<close> is \<open>int\<close>; lengths and indices are \<open>nat\<close>.
  \<^item> Text is \<open>string\<close>, one \<open>char\<close> per character, with the ASCII notions of whitespace
    and of lower case.
  \<^item> Every exception the code can raise is a value \<open>Inl e\<close> of the result.
  \<^item> The module \<^verbatim>\<open>random\<close> is a stream of natural numbers, consumed from the front;
    each library call maps the numbers it consumes onto its range, so that every outcome
    of the call is the image of some stream.
  \<^item> Candidates are values. The source shares candidate objects (a migrant lives in two
    islands, \<^verbatim>\<open>best_candidate\<close> is an island member) and writes two of their fields in
    place: \<^verbatim>\<open>fitness\<close>, only while it is \<^verbatim>\<open>0.0\<close> and with a value that depends on the
    candidate alone, and \<^verbatim>\<open>novelty\<close>, in \<^verbatim>\<open>get_pareto_front\<close>, with a value that depends on
    the identifiers and contents alone. The one place where the identity of an object
    decides a value is that last write when it reaches \<^verbatim>\<open>best_candidate\<close>: the evolver
    records in \<open>best_in_islands\<close> whether \<^verbatim>\<open>self.best_candidate\<close> is one of the objects of
    the islands.
    The counter \<^verbatim>\<open>total_evaluations\<close>, which no property below reads, is left out.
\<close>

subsection \<open>Exceptions\<close>

datatype error =
  IndexError | ValueError | ZeroDivisionError | TypeError | KeyError | UnboundLocalError

definition bind_err :: "error + 'a \<Rightarrow> ('a \<Rightarrow> error + 'b) \<Rightarrow> error + 'b" where
  "bind_err m f = (case m of Inl e \<Rightarrow> Inl e | Inr x \<Rightarrow> f x)"

subsection \<open>The module random\<close>

type_synonym rng = "nat stream"

definition random_random :: "rng \<Rightarrow> real \<times> rng" where
  \<comment> \<open>\<^verbatim>\<open>random.random()\<close>: a 53-bit fraction in \<open>[0, 1)\<close>.\<close>
  "random_random g = (real (shd g mod 2 ^ 53) / 2 ^ 53, stl g)"

definition randint :: "int \<Rightarrow> int \<Rightarrow> rng \<Rightarrow> error + int \<times> rng" where
  \<comment> \<open>\<^verbatim>\<open>random.randint(a, b)\<close>: an integer in \<open>[a, b]\<close>; ValueError on an empty range.\<close>
  "randint a b g =
     (if b < a then Inl ValueError
      else Inr (a + int (shd g mod nat (b - a + 1)), stl g))"

definition choice :: "'a list \<Rightarrow> rng \<Rightarrow> error + 'a \<times> rng" where
  \<comment> \<open>\<^verbatim>\<open>random.choice(seq)\<close>: IndexError on an empty sequence.\<close>
  "choice xs g =
     (if xs = [] then Inl IndexError
      else Inr (xs ! (shd g mod length xs), stl g))"

fun sample_from :: "'a list \<Rightarrow> nat \<Rightarrow> rng \<Rightarrow> 'a list \<times> rng" where
  "sample_from xs 0 g = ([], g)"
| "sample_from xs (Suc k) g =
     (let i = shd g mod length xs;
          (ys, g') = sample_from (take i xs @ drop (Suc i) xs) k (stl g)
      in (xs ! i # ys, g'))"

definition sample :: "'a list \<Rightarrow> nat \<Rightarrow> rng \<Rightarrow> error + 'a list \<times> rng" where
  \<comment> \<open>\<^verbatim>\<open>random.sample(population, k)\<close>: \<open>k\<close> elements at distinct positions, in selection
      order; ValueError when the sample is larger than the population.\<close>
  "sample xs k g =
     (if length xs < k then Inl ValueError else Inr (sample_from xs k g))"

subsection \<open>Strings\<close>

definition isspace :: "char \<Rightarrow> bool" where
  "isspace c \<longleftrightarrow> c \<in> set [CHR '' '', CHR 0x09, CHR 0x0A, CHR 0x0B, CHR 0x0C, CHR 0x0D,
                            CHR 0x1C, CHR 0x1D, CHR 0x1E, CHR 0x1F]"

fun split_from :: "string \<Rightarrow> string \<Rightarrow> string list" where
  \<comment> \<open>the word read so far, then the text still to read\<close>
  "split_from w [] = (if w = [] then [] else [w])"
| "split_from w (c # cs) =
     (if isspace c then (if w = [] then split_from [] cs else w # split_from [] cs)
      else split_from (w @ [c]) cs)"

definition split :: "string \<Rightarrow> string list" where
  \<comment> \<open>\<^verbatim>\<open>str.split()\<close>: the maximal runs of non-whitespace characters.\<close>
  "split s = split_from [] s"

fun join :: "string list \<Rightarrow> string" where
  \<comment> \<open>\<^verbatim>\<open>" ".join(words)\<close>\<close>
  "join [] = []"
| "join [w] = w"
| "join (w # ws) = w @ CHR '' '' # join ws"

definition strip :: "string \<Rightarrow> string" where
  \<comment> \<open>\<^verbatim>\<open>str.strip()\<close>\<close>
  "strip s = rev (dropWhile isspace (rev (dropWhile isspace s)))"

fun replace_double_space :: "string \<Rightarrow> string" where
  \<comment> \<open>\<^verbatim>\<open>t.replace("  ", " ")\<close>: non-overlapping occurrences, left to right\<close>
  "replace_double_space (c # d # cs) =
     (if c = CHR '' '' \<and> d = CHR '' '' then CHR '' '' # replace_double_space cs
      else c # replace_double_space (d # cs))"
| "replace_double_space cs = cs"

definition lower_char :: "char \<Rightarrow> char" where
  "lower_char c =
     (case map_of (zip ''ABCDEFGHIJKLMNOPQRSTUVWXYZ'' ''abcdefghijklmnopqrstuvwxyz'') c of
        Some l \<Rightarrow> l | None \<Rightarrow> c)"

definition lower :: "string \<Rightarrow> string" where
  \<comment> \<open>\<^verbatim>\<open>str.lower()\<close>\<close>
  "lower s = map lower_char s"

fun starts_with :: "string \<Rightarrow> string \<Rightarrow> bool" where
  "starts_with [] s = True"
| "starts_with (p # ps) [] = False"
| "starts_with (p # ps) (c # cs) = (p = c \<and> starts_with ps cs)"

fun contains :: "string \<Rightarrow> string \<Rightarrow> bool" where
  \<comment> \<open>\<^verbatim>\<open>sub in s\<close> for strings; the first argument is \<^verbatim>\<open>sub\<close>\<close>
  "contains sub [] = (sub = [])"
| "contains sub (c # cs) = (starts_with sub (c # cs) \<or> contains sub cs)"

definition digit :: "nat \<Rightarrow> char" where
  "digit n = ''0123456789'' ! (n mod 10)"

fun str_nat :: "nat \<Rightarrow> string" where
  "str_nat n = (if n < 10 then [digit n] else str_nat (n div 10) @ [digit n])"

declare str_nat.simps [simp del]

definition str_int :: "int \<Rightarrow> string" where
  \<comment> \<open>\<^verbatim>\<open>str(i)\<close>, as an f-string formats an integer\<close>
  "str_int i = (if i < 0 then CHR ''-'' # str_nat (nat (- i)) else str_nat (nat i))"

subsection \<open>Candidate and GenerationStats\<close>

record candidate =
  cid :: string                    \<comment> \<open>\<^verbatim>\<open>id\<close>\<close>
  content :: string
  fitness :: real
  novelty :: real
  cgeneration :: int               \<comment> \<open>\<^verbatim>\<open>generation\<close>\<close>
  parent_id :: "string option"
  mutation_type :: "string option"

record generation_stats =
  sgeneration :: int               \<comment> \<open>\<^verbatim>\<open>generation\<close>\<close>
  best_fitness :: real
  avg_fitness :: real
  diversity :: real
  spopulation_size :: nat          \<comment> \<open>\<^verbatim>\<open>population_size\<close>\<close>
  improvements :: nat

definition Candidate ::
  "string \<Rightarrow> string \<Rightarrow> int \<Rightarrow> string option \<Rightarrow> string option \<Rightarrow> candidate" where
  \<comment> \<open>the constructor with the default \<^verbatim>\<open>fitness = 0.0\<close> and \<^verbatim>\<open>novelty = 0.0\<close>\<close>
  "Candidate i c gen parent mtype =
     \<lparr>cid = i, content = c, fitness = 0, novelty = 0, cgeneration = gen,
      parent_id = parent, mutation_type = mtype\<rparr>"

subsection \<open>SimpleEvolver\<close>

record evolver =
  seed :: string
  evaluation_criteria :: string
  population_size :: int
  num_islands :: int
  mutation_model :: string
  evaluation_model :: string
  elitism :: bool
  crossover_rate :: real
  mutation_rate :: real
  islands :: "candidate list list"
  generation :: int
  best_candidate :: "candidate option"
  history :: "generation_stats list"
  best_in_islands :: bool
    \<comment> \<open>not an attribute: whether the object \<^verbatim>\<open>self.best_candidate\<close> is a member of an island\<close>

subsubsection \<open>Text mutations\<close>

definition swap_words :: "string \<Rightarrow> rng \<Rightarrow> error + string \<times> rng" where
  "swap_words text g =
     (let words = split text in
      if length words < 2 then Inr (text, g)
      else bind_err (sample [0..<length words] 2 g) (\<lambda>(ij, g').
             case ij of
               [i, j] \<Rightarrow> Inr (join (words[i := words ! j, j := words ! i]), g')
             | _ \<Rightarrow> Inl ValueError))"

definition phrases :: "string list" where
  "phrases = [''Additionally,'', ''Furthermore,'', ''Moreover,'', ''In particular,'',
              ''Specifically,'']"

definition insert_phrase :: "string \<Rightarrow> rng \<Rightarrow> error + string \<times> rng" where
  "insert_phrase text g =
     (let words = split text in
      if words = [] then Inr (text, g)
      else bind_err (randint 0 (int (length words)) g) (\<lambda>(pos, g').
           bind_err (choice phrases g') (\<lambda>(phrase, g'').
             Inr (join (take (nat pos) words @ phrase # drop (nat pos) words), g''))))"

datatype mutation = RemoveDoubleSpaces | AddNewline | StripWhitespace | SwapWords | InsertPhrase

definition mutations :: "mutation list" where
  "mutations = [RemoveDoubleSpaces, AddNewline, StripWhitespace, SwapWords, InsertPhrase]"

fun apply_mutation :: "mutation \<Rightarrow> string \<Rightarrow> rng \<Rightarrow> error + string \<times> rng" where
  "apply_mutation RemoveDoubleSpaces t g = Inr (replace_double_space t, g)"
| "apply_mutation AddNewline t g = Inr (t @ [CHR 0x0A], g)"
| "apply_mutation StripWhitespace t g = Inr (strip t, g)"
| "apply_mutation SwapWords t g = swap_words t g"
| "apply_mutation InsertPhrase t g = insert_phrase t g"

definition mutate_text :: "string \<Rightarrow> rng \<Rightarrow> error + string \<times> rng" where
  "mutate_text text g = bind_err (choice mutations g) (\<lambda>(m, g'). apply_mutation m text g')"

subsubsection \<open>Construction\<close>

fun initial_loop ::
  "evolver \<Rightarrow> nat list \<Rightarrow> candidate list \<Rightarrow> rng \<Rightarrow> error + candidate list \<times> rng" where
  \<comment> \<open>the \<^verbatim>\<open>for i in range(...)\<close> of \<^verbatim>\<open>_create_initial_population\<close>\<close>
  "initial_loop self [] population g = Inr (population, g)"
| "initial_loop self (i # rest) population g =
     bind_err (if 0 < i then mutate_text (seed self) g else Inr (seed self, g)) (\<lambda>(text, g').
       initial_loop self rest
         (population @
            [Candidate (''gen0_island'' @ str_nat (length population) @ ''_'' @ str_nat i)
               text 0 None None]) g')"

definition create_initial_population :: "evolver \<Rightarrow> rng \<Rightarrow> error + candidate list \<times> rng" where
  "create_initial_population self g =
     (if num_islands self = 0 then Inl ZeroDivisionError
      else initial_loop self [0..<nat (population_size self div num_islands self)] [] g)"

fun build_islands :: "evolver \<Rightarrow> nat \<Rightarrow> rng \<Rightarrow> error + candidate list list \<times> rng" where
  \<comment> \<open>\<^verbatim>\<open>[self._create_initial_population() for _ in range(num_islands)]\<close>\<close>
  "build_islands self 0 g = Inr ([], g)"
| "build_islands self (Suc n) g =
     bind_err (create_initial_population self g) (\<lambda>(island, g').
     bind_err (build_islands self n g') (\<lambda>(rest, g'').
       Inr (island # rest, g'')))"

definition init ::
  "string \<Rightarrow> string \<Rightarrow> int \<Rightarrow> int \<Rightarrow> string \<Rightarrow> string \<Rightarrow> bool \<Rightarrow> real \<Rightarrow> real \<Rightarrow> rng
     \<Rightarrow> error + evolver \<times> rng" where
  \<comment> \<open>\<^verbatim>\<open>SimpleEvolver.__init__\<close>\<close>
  "init sd criteria psize nislands mmodel emodel elit crate mrate g =
     (let self = \<lparr>seed = sd, evaluation_criteria = criteria, population_size = psize,
                  num_islands = nislands, mutation_model = mmodel, evaluation_model = emodel,
                  elitism = elit, crossover_rate = crate, mutation_rate = mrate,
                  islands = [], generation = 0, best_candidate = None, history = [],
                  best_in_islands = False\<rparr>
      in bind_err (build_islands self (nat nislands) g) (\<lambda>(isls, g').
           Inr (self\<lparr>islands := isls\<rparr>, g')))"

subsubsection \<open>Fitness\<close>

definition evaluate :: "evolver \<Rightarrow> candidate \<Rightarrow> real" where
  \<comment> \<open>\<^verbatim>\<open>_evaluate\<close>\<close>
  "evaluate self c =
     (let score = 0.5;
          text = lower (content c);
          n = length text;
          score = (if 100 < n \<and> n < 5000 then score + 0.1 else score);
          score = (if 500 < n \<and> n < 2000 then score + 0.1 else score);
          score = (if list_ex (\<lambda>marker. contains marker text) [''step'', ''1.'', ''first'', ''then'']
                   then score + 0.1 else score);
          criteria_words = split (lower (evaluation_criteria self));
          matches = length (filter (\<lambda>word. contains word text) criteria_words);
          score = score + min 0.2 (real matches * 0.02);
          score = (case parent_id c of
                     Some p \<Rightarrow> if p \<noteq> [] then score + 0.05 else score
                   | None \<Rightarrow> score)
      in min score 1)"

subsubsection \<open>Operators\<close>

definition crossover :: "evolver \<Rightarrow> candidate \<Rightarrow> candidate \<Rightarrow> rng \<Rightarrow> error + candidate \<times> rng" where
  \<comment> \<open>\<^verbatim>\<open>_crossover\<close>\<close>
  "crossover self parent1 parent2 g =
     (let words1 = split (content parent1);
          words2 = split (content parent2);
          point = min (length words1) (length words2) div 2;
          child_words = take point words1 @ drop point words2
      in bind_err (randint 0 9999 g) (\<lambda>(r, g').
           Inr (Candidate (''gen'' @ str_int (generation self) @ ''_cross_'' @ str_int r)
                  (join child_words) (generation self) (Some (cid parent1)) (Some ''crossover''),
                g')))"

definition mutate :: "evolver \<Rightarrow> candidate \<Rightarrow> rng \<Rightarrow> error + candidate \<times> rng" where
  \<comment> \<open>\<^verbatim>\<open>_mutate\<close>\<close>
  "mutate self parent g =
     bind_err (randint 0 9999 g) (\<lambda>(r, g').
     bind_err (mutate_text (content parent) g') (\<lambda>(text, g'').
       Inr (Candidate (''gen'' @ str_int (generation self) @ ''_mut_'' @ str_int r)
              text (generation self) (Some (cid parent)) (Some ''point''),
            g'')))"

subsubsection \<open>One generation\<close>

definition evaluate_all :: "evolver \<Rightarrow> candidate list \<Rightarrow> candidate list" where
  \<comment> \<open>\<^verbatim>\<open>for candidate in island: if candidate.fitness == 0.0: candidate.fitness = ...\<close>\<close>
  "evaluate_all self island =
     map (\<lambda>c. if fitness c = 0 then c\<lparr>fitness := evaluate self c\<rparr> else c) island"

definition sort_by_fitness :: "candidate list \<Rightarrow> candidate list" where
  \<comment> \<open>\<^verbatim>\<open>island.sort(key=lambda c: c.fitness, reverse=True)\<close>: stable, descending\<close>
  "sort_by_fitness island = sort_key (\<lambda>c. - fitness c) island"

definition make_child :: "evolver \<Rightarrow> candidate list \<Rightarrow> rng \<Rightarrow> error + candidate \<times> rng" where
  \<comment> \<open>the body of the \<^verbatim>\<open>while\<close> loop up to \<^verbatim>\<open>new_island.append(child)\<close>\<close>
  "make_child self island g =
     (let (r, g1) = random_random g in
      if r < crossover_rate self \<and> 2 \<le> length island then
        bind_err (sample (take (length island div 2) island) 2 g1) (\<lambda>(parents, g2).
          case parents of
            p0 # p1 # _ \<Rightarrow> crossover self p0 p1 g2
          | _ \<Rightarrow> Inl IndexError)
      else
        bind_err (choice (take (length island div 2) island) g1) (\<lambda>(parent, g2).
          mutate self parent g2))"

function fill_offspring ::
  "evolver \<Rightarrow> candidate list \<Rightarrow> candidate list \<Rightarrow> rng \<Rightarrow> error + candidate list \<times> rng" where
  \<comment> \<open>\<^verbatim>\<open>while len(new_island) < self.population_size // self.num_islands\<close>\<close>
  "fill_offspring self island new_island g =
     (if num_islands self = 0 then Inl ZeroDivisionError
      else if int (length new_island) < population_size self div num_islands self then
        bind_err (make_child self island g) (\<lambda>(child, g').
          fill_offspring self island (new_island @ [child]) g')
      else Inr (new_island, g))"
  by pat_completeness auto
termination
  by (relation "measure (\<lambda>(self, island, new_island, g).
        nat (population_size self div num_islands self - int (length new_island)))") auto

declare fill_offspring.simps [simp del]

definition process_island ::
  "evolver \<Rightarrow> candidate list \<Rightarrow> candidate option \<Rightarrow> nat \<Rightarrow> rng
     \<Rightarrow> error + candidate list \<times> candidate option \<times> nat \<times> rng" where
  \<comment> \<open>the body of \<^verbatim>\<open>for island_idx, island in enumerate(self.islands)\<close>; the result is the
      island stored at \<^verbatim>\<open>island_idx\<close>, \<^verbatim>\<open>self.best_candidate\<close> and \<^verbatim>\<open>improvements\<close>\<close>
  "process_island self island0 best improved g =
     (let island = sort_by_fitness (evaluate_all self island0) in
      case island of
        [] \<Rightarrow> Inl IndexError
      | leader # _ \<Rightarrow>
          let (best', improved') =
                (if (case best of Some b \<Rightarrow> fitness b | None \<Rightarrow> 0) < fitness leader
                 then (Some leader, improved + 1) else (best, improved));
              elite = (if elitism self then take (max 1 (length island div 5)) island else [])
          in bind_err (fill_offspring self island elite g) (\<lambda>(new_island, g').
               Inr (new_island, best', improved', g')))"

fun island_loop ::
  "evolver \<Rightarrow> candidate list list \<Rightarrow> candidate option \<Rightarrow> nat \<Rightarrow> rng
     \<Rightarrow> error + candidate list list \<times> candidate option \<times> nat \<times> rng" where
  "island_loop self [] best improved g = Inr ([], best, improved, g)"
| "island_loop self (island # rest) best improved g =
     bind_err (process_island self island best improved g)
       (\<lambda>(new_island, best', improved', g').
     bind_err (island_loop self rest best' improved' g')
       (\<lambda>(new_rest, best'', improved'', g'').
          Inr (new_island # new_rest, best'', improved'', g'')))"

fun migrate_loop :: "nat list \<Rightarrow> candidate list list \<Rightarrow> candidate list list" where
  \<comment> \<open>\<^verbatim>\<open>for i in range(len(self.islands))\<close> of the migration\<close>
  "migrate_loop [] isls = isls"
| "migrate_loop (i # rest) isls =
     (let next_island = (i + 1) mod length isls
      in migrate_loop rest
           (if isls ! i \<noteq> [] then isls[next_island := isls ! next_island @ [hd (isls ! i)]]
            else isls))"

definition migrate :: "candidate list list \<Rightarrow> candidate list list" where
  "migrate isls = migrate_loop [0..<length isls] isls"

definition calculate_stats :: "evolver \<Rightarrow> nat \<Rightarrow> generation_stats" where
  "calculate_stats self improved =
     (let all_candidates = concat (islands self);
          fitnesses = filter (\<lambda>f. 0 < f) (map fitness all_candidates)
      in \<lparr>sgeneration = generation self,
          best_fitness = (if fitnesses \<noteq> [] then Max (set fitnesses) else 0),
          avg_fitness = (if fitnesses \<noteq> [] then sum_list fitnesses / real (length fitnesses)
                         else 0),
          diversity = (if all_candidates \<noteq> []
                       then real (card (set (map content all_candidates)))
                              / real (length all_candidates)
                       else 0),
          spopulation_size = length all_candidates,
          improvements = improved\<rparr>)"

definition evolve_generation :: "evolver \<Rightarrow> rng \<Rightarrow> error + generation_stats \<times> evolver \<times> rng" where
  \<comment> \<open>Every island is replaced by \<^verbatim>\<open>island[:elite_count]\<close>, if \<^verbatim>\<open>self.elitism\<close>, and new
      children. \<open>improved\<close> counts the assignments \<^verbatim>\<open>self.best_candidate = island[0]\<close>, and
      \<^verbatim>\<open>island[0]\<close> is among the elite that is kept; a best candidate that is the first
      member of its island and is not replaced stays the first member (the sort is stable)
      and is kept in the same way. Without elitism no object of the old islands is in the
      new ones.\<close>
  "evolve_generation self0 g =
     (let self = self0\<lparr>generation := generation self0 + 1\<rparr> in
      bind_err (island_loop self (islands self) (best_candidate self) 0 g)
        (\<lambda>(new_islands, best, improved, g').
           let self = self\<lparr>islands := new_islands, best_candidate := best,
                        best_in_islands :=
                          elitism self \<and> (0 < improved \<or> best_in_islands self)\<rparr>;
               self = (if generation self mod 5 = 0 \<and> 1 < length (islands self)
                       then self\<lparr>islands := migrate (islands self)\<rparr> else self);
               stats = calculate_stats self improved
           in Inr (stats, self\<lparr>history := history self @ [stats]\<rparr>, g')))"

fun evolve_generations :: "nat \<Rightarrow> evolver \<Rightarrow> rng \<Rightarrow> error + evolver \<times> rng" where
  \<comment> \<open>\<^verbatim>\<open>for _ in range(n): evolver.evolve_generation()\<close>\<close>
  "evolve_generations 0 self g = Inr (self, g)"
| "evolve_generations (Suc n) self g =
     bind_err (evolve_generation self g) (\<lambda>(stats, self', g').
       evolve_generations n self' g')"

subsubsection \<open>The pareto front\<close>

definition novelty_in :: "candidate list \<Rightarrow> candidate \<Rightarrow> real" where
  \<comment> \<open>the value stored in \<^verbatim>\<open>candidate.novelty\<close> by the loop of \<^verbatim>\<open>get_pareto_front\<close>\<close>
  "novelty_in all_candidates c =
     (let others_content = map content (filter (\<lambda>d. cid d \<noteq> cid c) all_candidates) in
      if others_content \<noteq> [] then
        let avg_similarity =
              real (length (filter (\<lambda>other.
                      0.8 < real (card (set (split (content c)) \<inter> set (split other)))
                              / real (max (length (split (content c))) 1))
                    others_content))
                / real (length others_content)
        in 1 - avg_similarity
      else 1)"

definition get_pareto_front :: "evolver \<Rightarrow> candidate list \<times> evolver" where
  \<comment> \<open>The loop assigns \<^verbatim>\<open>candidate.novelty\<close> on the objects of \<^verbatim>\<open>all_candidates\<close>, which are
      the members of the islands: the second component is the evolver after the call.
      Identifiers and contents are not written, so each assignment is computed from the
      candidates as they were before the loop. When \<^verbatim>\<open>self.best_candidate\<close> is one of
      these objects, the assignment to it is seen through \<^verbatim>\<open>self.best_candidate\<close> too.\<close>
  "get_pareto_front self =
     (let all_candidates = concat (islands self);
          assign = (\<lambda>c. c\<lparr>novelty := novelty_in all_candidates c\<rparr>);
          scored = map assign all_candidates;
          ranked = sort_key (\<lambda>c. - (fitness c + novelty c * 0.5)) scored
      in (take 10 ranked,
          self\<lparr>islands := map (map assign) (islands self),
               best_candidate := (if best_in_islands self
                                  then map_option assign (best_candidate self)
                                  else best_candidate self)\<rparr>))"

subsection \<open>Checkpoints\<close>

text \<open>
  A checkpoint is the object handed to \<^verbatim>\<open>json.dump\<close> and returned by \<^verbatim>\<open>json.load\<close>; the
  files of the output directory are a map from paths to such documents. Writing a file
  is taken to succeed.
\<close>

datatype json =
  JNull | JBool bool | JInt int | JFloat real | JStr string | JList "json list"
| JObj "(string \<times> json) list"

type_synonym files = "string \<rightharpoonup> json"

definition path_join :: "string \<Rightarrow> string \<Rightarrow> string" where
  \<comment> \<open>\<^verbatim>\<open>os.path.join(a, b)\<close> on a POSIX system\<close>
  "path_join a b =
     (if starts_with ''/'' b then b
      else if a = [] \<or> last a = CHR ''/'' then a @ b
      else a @ ''/'' @ b)"

definition json_opt :: "string option \<Rightarrow> json" where
  "json_opt x = (case x of None \<Rightarrow> JNull | Some s \<Rightarrow> JStr s)"

definition asdict_candidate :: "candidate \<Rightarrow> json" where
  "asdict_candidate c =
     JObj [(''id'', JStr (cid c)), (''content'', JStr (content c)),
           (''fitness'', JFloat (fitness c)), (''novelty'', JFloat (novelty c)),
           (''generation'', JInt (cgeneration c)), (''parent_id'', json_opt (parent_id c)),
           (''mutation_type'', json_opt (mutation_type c))]"

definition asdict_stats :: "generation_stats \<Rightarrow> json" where
  "asdict_stats h =
     JObj [(''generation'', JInt (sgeneration h)), (''best_fitness'', JFloat (best_fitness h)),
           (''avg_fitness'', JFloat (avg_fitness h)), (''diversity'', JFloat (diversity h)),
           (''population_size'', JInt (int (spopulation_size h))),
           (''improvements'', JInt (int (improvements h)))]"

definition checkpoint_of :: "string \<Rightarrow> evolver \<Rightarrow> json" where
  \<comment> \<open>the dictionary written to \<^verbatim>\<open>{task_id}_checkpoint.json\<close>\<close>
  "checkpoint_of task_id evolver =
     JObj [(''task_id'', JStr task_id),
           (''generation'', JInt (generation evolver)),
           (''best_candidate'',
              (case best_candidate evolver of Some b \<Rightarrow> asdict_candidate b | None \<Rightarrow> JNull)),
           (''islands'', JList (map (\<lambda>island. JList (map asdict_candidate island))
                                  (islands evolver))),
           (''history'', JList (map asdict_stats (history evolver)))]"

definition status_of :: "bool \<Rightarrow> evolver \<Rightarrow> json" where
  "status_of active evolver =
     JObj [(''active'', JBool active),
           (''generation'', JInt (generation evolver)),
           (''best_fitness'',
              (case best_candidate evolver of Some b \<Rightarrow> JFloat (fitness b) | None \<Rightarrow> JInt 0))]"

text \<open>
  Reading a checkpoint back. A Python field holds a value of any type; the fields of the
  records here are typed, so a document whose values have another JSON type than the
  program writes is rejected with TypeError, where the source stores the value unchecked.
\<close>

definition subscript :: "json \<Rightarrow> string \<Rightarrow> error + json" where
  \<comment> \<open>\<^verbatim>\<open>d[key]\<close> on a loaded document\<close>
  "subscript d key =
     (case d of
        JObj kvs \<Rightarrow> (case map_of kvs key of Some v \<Rightarrow> Inr v | None \<Rightarrow> Inl KeyError)
      | _ \<Rightarrow> Inl TypeError)"

fun truthy :: "json \<Rightarrow> bool" where
  "truthy JNull = False"
| "truthy (JBool b) = b"
| "truthy (JInt i) = (i \<noteq> 0)"
| "truthy (JFloat r) = (r \<noteq> 0)"
| "truthy (JStr s) = (s \<noteq> [])"
| "truthy (JList xs) = (xs \<noteq> [])"
| "truthy (JObj kvs) = (kvs \<noteq> [])"

fun as_str :: "json \<Rightarrow> error + string" where
  "as_str (JStr s) = Inr s"
| "as_str _ = Inl TypeError"

fun as_opt_str :: "json \<Rightarrow> error + string option" where
  "as_opt_str JNull = Inr None"
| "as_opt_str (JStr s) = Inr (Some s)"
| "as_opt_str _ = Inl TypeError"

fun as_float :: "json \<Rightarrow> error + real" where
  "as_float (JFloat r) = Inr r"
| "as_float (JInt i) = Inr (real_of_int i)"
| "as_float _ = Inl TypeError"

fun as_int :: "json \<Rightarrow> error + int" where
  "as_int (JInt i) = Inr i"
| "as_int _ = Inl TypeError"

fun as_nat :: "json \<Rightarrow> error + nat" where
  "as_nat (JInt i) = (if 0 \<le> i then Inr (nat i) else Inl TypeError)"
| "as_nat _ = Inl TypeError"

fun as_list :: "json \<Rightarrow> error + json list" where
  "as_list (JList xs) = Inr xs"
| "as_list _ = Inl TypeError"

definition keyword ::
  "(string \<times> json) list \<Rightarrow> string \<Rightarrow> (json \<Rightarrow> error + 'a) \<Rightarrow> 'a option \<Rightarrow> error + 'a" where
  \<comment> \<open>a keyword argument of a dataclass constructor: required when it has no default\<close>
  "keyword kvs key conv dflt =
     (case map_of kvs key of
        Some v \<Rightarrow> conv v
      | None \<Rightarrow> (case dflt of Some d \<Rightarrow> Inr d | None \<Rightarrow> Inl TypeError))"

definition candidate_of_json :: "json \<Rightarrow> error + candidate" where
  \<comment> \<open>\<^verbatim>\<open>Candidate(**c)\<close>\<close>
  "candidate_of_json c =
     (case c of
        JObj kvs \<Rightarrow>
          if \<not> list_all (\<lambda>k. k \<in> set [''id'', ''content'', ''fitness'', ''novelty'', ''generation'',
                                       ''parent_id'', ''mutation_type'']) (map fst kvs)
          then Inl TypeError
          else
            bind_err (keyword kvs ''id'' as_str None) (\<lambda>i.
            bind_err (keyword kvs ''content'' as_str None) (\<lambda>t.
            bind_err (keyword kvs ''fitness'' as_float (Some 0)) (\<lambda>f.
            bind_err (keyword kvs ''novelty'' as_float (Some 0)) (\<lambda>n.
            bind_err (keyword kvs ''generation'' as_int (Some 0)) (\<lambda>gen.
            bind_err (keyword kvs ''parent_id'' as_opt_str (Some None)) (\<lambda>p.
            bind_err (keyword kvs ''mutation_type'' as_opt_str (Some None)) (\<lambda>m.
              Inr \<lparr>cid = i, content = t, fitness = f, novelty = n, cgeneration = gen,
                   parent_id = p, mutation_type = m\<rparr>)))))))
      | _ \<Rightarrow> Inl TypeError)"

definition stats_of_json :: "json \<Rightarrow> error + generation_stats" where
  \<comment> \<open>\<^verbatim>\<open>GenerationStats(**h)\<close>\<close>
  "stats_of_json h =
     (case h of
        JObj kvs \<Rightarrow>
          if \<not> list_all (\<lambda>k. k \<in> set [''generation'', ''best_fitness'', ''avg_fitness'',
                                       ''diversity'', ''population_size'', ''improvements''])
                   (map fst kvs)
          then Inl TypeError
          else
            bind_err (keyword kvs ''generation'' as_int None) (\<lambda>gen.
            bind_err (keyword kvs ''best_fitness'' as_float None) (\<lambda>b.
            bind_err (keyword kvs ''avg_fitness'' as_float None) (\<lambda>a.
            bind_err (keyword kvs ''diversity'' as_float None) (\<lambda>d.
            bind_err (keyword kvs ''population_size'' as_nat None) (\<lambda>p.
            bind_err (keyword kvs ''improvements'' as_nat None) (\<lambda>i.
              Inr \<lparr>sgeneration = gen, best_fitness = b, avg_fitness = a, diversity = d,
                   spopulation_size = p, improvements = i\<rparr>))))))
      | _ \<Rightarrow> Inl TypeError)"

fun for_each :: "('a \<Rightarrow> error + 'b) \<Rightarrow> 'a list \<Rightarrow> error + 'b list" where
  \<comment> \<open>a list comprehension whose element expression may raise\<close>
  "for_each f [] = Inr []"
| "for_each f (x # xs) =
     bind_err (f x) (\<lambda>y. bind_err (for_each f xs) (\<lambda>ys. Inr (y # ys)))"

subsection \<open>run_evolution\<close>

record config =
  cfg_task_id :: string
  cfg_seed :: string
  cfg_evaluation_criteria :: string
  cfg_max_generations :: int
  cfg_population_size :: int
  cfg_num_islands :: int
  cfg_mutation_model :: string
  cfg_evaluation_model :: string
  cfg_elitism :: bool
  cfg_crossover_rate :: real
  cfg_mutation_rate :: real
  cfg_output_dir :: string

text \<open>
  A \<open>config\<close> holds the values that \<^verbatim>\<open>config.get(key, default)\<close> returns, one field per key.
\<close>

definition checkpoint_path :: "string \<Rightarrow> string \<Rightarrow> string" where
  "checkpoint_path dir task_id = path_join dir (task_id @ ''_checkpoint.json'')"

definition status_path :: "string \<Rightarrow> string \<Rightarrow> string" where
  "status_path dir task_id = path_join dir (task_id @ ''_status.json'')"

fun generation_loop ::
  "nat \<Rightarrow> string \<Rightarrow> string \<Rightarrow> evolver \<Rightarrow> rng \<Rightarrow> files \<Rightarrow> error + evolver \<times> rng \<times> files" where
  \<comment> \<open>\<^verbatim>\<open>for gen in range(max_generations)\<close>: one generation, then the checkpoint and the
      status file\<close>
  "generation_loop 0 dir task_id evolver g fs = Inr (evolver, g, fs)"
| "generation_loop (Suc n) dir task_id evolver g fs =
     bind_err (evolve_generation evolver g) (\<lambda>(stats, evolver', g').
       generation_loop n dir task_id evolver' g'
         (fs(checkpoint_path dir task_id \<mapsto> checkpoint_of task_id evolver',
             status_path dir task_id \<mapsto> status_of True evolver')))"

definition create_and_run :: "config \<Rightarrow> rng \<Rightarrow> files \<Rightarrow> error + evolver \<times> rng \<times> files" where
  \<comment> \<open>\<^verbatim>\<open>run_evolution\<close> up to the end of its loop: the evolver it has built and stepped\<close>
  "create_and_run config g fs =
     bind_err (init (cfg_seed config) (cfg_evaluation_criteria config)
                 (cfg_population_size config) (cfg_num_islands config)
                 (cfg_mutation_model config) (cfg_evaluation_model config)
                 (cfg_elitism config) (cfg_crossover_rate config) (cfg_mutation_rate config) g)
       (\<lambda>(evolver, g').
          generation_loop (nat (cfg_max_generations config)) (cfg_output_dir config)
            (cfg_task_id config) evolver g' fs)"

definition run_evolution :: "config \<Rightarrow> rng \<Rightarrow> files \<Rightarrow> error + json \<times> rng \<times> files" where
  \<comment> \<open>The result dictionary, without its entry \<^verbatim>\<open>total_evaluations\<close>. With no generation
      run, \<^verbatim>\<open>status\<close> is unbound at \<^verbatim>\<open>status["active"] = False\<close>.\<close>
  "run_evolution config g fs =
     bind_err (create_and_run config g fs) (\<lambda>(evolver, g', fs').
       if cfg_max_generations config \<le> 0 then Inl UnboundLocalError
       else
         let fs'' = fs'(status_path (cfg_output_dir config) (cfg_task_id config)
                          \<mapsto> status_of False evolver);
             (pareto_front, evolver) = get_pareto_front evolver
         in Inr (JObj [(''success'', JBool True),
                       (''task_id'', JStr (cfg_task_id config)),
                       (''best_solution'',
                          (case best_candidate evolver of
                             Some b \<Rightarrow> JStr (content b) | None \<Rightarrow> JNull)),
                       (''best_fitness'',
                          (case best_candidate evolver of
                             Some b \<Rightarrow> JFloat (fitness b) | None \<Rightarrow> JInt 0)),
                       (''generations'', JInt (generation evolver)),
                       (''diversity_score'',
                          (if history evolver \<noteq> [] then JFloat (diversity (last (history evolver)))
                           else JInt 0)),
                       (''pareto_front'', JList (map asdict_candidate pareto_front)),
                       (''history'', JList (map asdict_stats (history evolver)))],
                 g', fs''))"

subsection \<open>continue_evolution\<close>

definition default_model :: string where
  "default_model = ''openai/gpt-4.1-mini''"

definition load_evolver :: "json \<Rightarrow> rng \<Rightarrow> error + evolver \<times> rng" where
  \<comment> \<open>"Reconstruct evolver state": from \<^verbatim>\<open>evolver = SimpleEvolver(...)\<close> to the assignment
      of \<^verbatim>\<open>evolver.history\<close>\<close>
  "load_evolver checkpoint g =
     bind_err (subscript checkpoint ''best_candidate'') (\<lambda>best_json.
     bind_err (if truthy best_json then bind_err (subscript best_json ''content'') as_str
               else Inr []) (\<lambda>sd.
     bind_err (bind_err (subscript checkpoint ''islands'') as_list) (\<lambda>island_jsons.
     bind_err (for_each as_list island_jsons) (\<lambda>island_lists.
     bind_err (init sd ''Continue evolution'' (int (sum_list (map length island_lists)))
                 (int (length island_lists)) default_model default_model True 0.6 0.4 g)
       (\<lambda>(evolver, g').
     bind_err (bind_err (subscript checkpoint ''generation'') as_int) (\<lambda>gen.
     bind_err (for_each (for_each candidate_of_json) island_lists) (\<lambda>isls.
     bind_err (if truthy best_json
               then bind_err (candidate_of_json best_json) (\<lambda>b. Inr (Some b))
               else Inr (best_candidate evolver)) (\<lambda>best.
     bind_err (bind_err (bind_err (subscript checkpoint ''history'') as_list)
                 (for_each stats_of_json)) (\<lambda>hist.
       Inr (evolver\<lparr>generation := gen, islands := isls, best_candidate := best,
                    history := hist\<rparr>, g'))))))))))"

definition resume :: "json \<Rightarrow> int \<Rightarrow> rng \<Rightarrow> error + evolver \<times> rng" where
  \<comment> \<open>the evolver of \<^verbatim>\<open>continue_evolution\<close> after its loop\<close>
  "resume checkpoint additional_generations g =
     bind_err (load_evolver checkpoint g) (\<lambda>(evolver, g').
       evolve_generations (nat additional_generations) evolver g')"

definition continue_evolution ::
  "string \<Rightarrow> int \<Rightarrow> string \<Rightarrow> rng \<Rightarrow> files \<Rightarrow> error + json \<times> rng \<times> files" where
  "continue_evolution task_id additional_generations checkpoint_dir g fs =
     (case fs (checkpoint_path checkpoint_dir task_id) of
        None \<Rightarrow>
          Inr (JObj [(''success'', JBool False), (''task_id'', JStr task_id),
                     (''error'', JStr (''Checkpoint not found: ''
                                        @ checkpoint_path checkpoint_dir task_id))],
               g, fs)
      | Some checkpoint \<Rightarrow>
          bind_err (resume checkpoint additional_generations g) (\<lambda>(evolver, g').
            Inr (JObj [(''success'', JBool True),
                       (''task_id'', JStr task_id),
                       (''best_solution'',
                          (case best_candidate evolver of
                             Some b \<Rightarrow> JStr (content b) | None \<Rightarrow> JNull)),
                       (''best_fitness'',
                          (case best_candidate evolver of
                             Some b \<Rightarrow> JFloat (fitness b) | None \<Rightarrow> JInt 0)),
                       (''generations'', JInt (generation evolver)),
                       (''diversity_score'',
                          (if history evolver \<noteq> [] then JFloat (diversity (last (history evolver)))
                           else JInt 0))],
                 g',
                 fs(checkpoint_path checkpoint_dir task_id \<mapsto> checkpoint_of task_id evolver))))"

subsection \<open>Notions used in the statements\<close>

definition word :: "string \<Rightarrow> bool" where
  "word w \<longleftrightarrow> w \<noteq> [] \<and> (\<forall>c \<in> set w. \<not> isspace c)"

definition crossover_at_own_midpoints :: "string \<Rightarrow> string \<Rightarrow> string" where
  \<comment> \<open>The crossover of the specification, in its words: each parent is split at the
      midpoint of its own word sequence, and the first half of parent 1 is followed by
      the second half of parent 2.\<close>
  "crossover_at_own_midpoints text1 text2 =
     join (take (length (split text1) div 2) (split text1)
           @ drop (length (split text2) div 2) (split text2))"

definition default_evolver :: evolver where
  \<comment> \<open>an evolver with the default parameters of the constructor and no island\<close>
  "default_evolver =
     \<lparr>seed = [], evaluation_criteria = [], population_size = 10, num_islands = 2,
      mutation_model = default_model, evaluation_model = default_model, elitism = True,
      crossover_rate = 0.6, mutation_rate = 0.4, islands = [], generation = 0,
      best_candidate = None, history = [],
                  best_in_islands = False\<rparr>"

definition pareto_config :: config where
  \<comment> \<open>a run of one generation on two islands of two candidates\<close>
  "pareto_config =
     \<lparr>cfg_task_id = ''t'', cfg_seed = ''x'', cfg_evaluation_criteria = ''Additionally,'',
      cfg_max_generations = 1, cfg_population_size = 4, cfg_num_islands = 2,
      cfg_mutation_model = default_model, cfg_evaluation_model = default_model,
      cfg_elitism = True, cfg_crossover_rate = 0.6, cfg_mutation_rate = 0.4,
      cfg_output_dir = ''.''\<rparr>"

definition pareto_draws :: rng where
  "pareto_draws =
     4 ## 0 ## 0 ## 2 ## 9007199254740991 ## 0 ## 7 ## 6 ## 9007199254740991 ## 0 ## 8 ## 6
       ## sconst 0"


definition pareto_elite0 :: candidate where
  "pareto_elite0 =
     \<lparr>cid = ''gen0_island1_1'', content = ''Additionally, x'', fitness = 13 / 25, novelty = 0,
      cgeneration = 0, parent_id = None, mutation_type = None\<rparr>"

definition pareto_child0 :: candidate where
  "pareto_child0 =
     \<lparr>cid = ''gen1_mut_7'', content = ''Additionally, x'' @ [CHR 0x0A], fitness = 0, novelty = 0,
      cgeneration = 1, parent_id = Some ''gen0_island1_1'', mutation_type = Some ''point''\<rparr>"

definition pareto_elite1 :: candidate where
  "pareto_elite1 =
     \<lparr>cid = ''gen0_island0_0'', content = ''x'', fitness = 1 / 2, novelty = 0,
      cgeneration = 0, parent_id = None, mutation_type = None\<rparr>"

definition pareto_child1 :: candidate where
  "pareto_child1 =
     \<lparr>cid = ''gen1_mut_8'', content = ''x'' @ [CHR 0x0A], fitness = 0, novelty = 0,
      cgeneration = 1, parent_id = Some ''gen0_island0_0'', mutation_type = Some ''point''\<rparr>"

definition pareto_state :: evolver where
  \<comment> \<open>the evolver that \<open>pareto_config\<close> reaches on \<open>pareto_draws\<close>\<close>
  "pareto_state =
     \<lparr>seed = ''x'', evaluation_criteria = ''Additionally,'', population_size = 4,
      num_islands = 2, mutation_model = default_model, evaluation_model = default_model,
      elitism = True, crossover_rate = 0.6, mutation_rate = 0.4,
      islands = [[pareto_elite0, pareto_child0], [pareto_elite1, pareto_child1]],
      generation = 1, best_candidate = Some pareto_elite0,
      history = [\<lparr>sgeneration = 1, best_fitness = 13 / 25, avg_fitness = 51 / 100,
                  diversity = 1, spopulation_size = 4, improvements = 1\<rparr>],
      best_in_islands = True\<rparr>"


definition resume_example :: evolver where
  \<comment> \<open>an evolver of one island, built for the criteria \<open>''x''\<close>, before its first generation\<close>
  "resume_example =
     default_evolver\<lparr>seed := ''x'', evaluation_criteria := ''x'', population_size := 1,
       num_islands := 1, islands := [[Candidate ''gen0_island0_0'' ''x'' 0 None None]]\<rparr>"

definition resumed_example :: evolver where
  \<comment> \<open>the evolver after a checkpoint of \<open>resume_example\<close> is resumed for one generation\<close>
  "resumed_example =
     default_evolver\<lparr>evaluation_criteria := ''Continue evolution'', population_size := 1,
       num_islands := 1,
       islands := [[(Candidate ''gen0_island0_0'' ''x'' 0 None None)\<lparr>fitness := 1 / 2\<rparr>]],
       generation := 1,
       best_candidate := Some ((Candidate ''gen0_island0_0'' ''x'' 0 None None)\<lparr>fitness := 1 / 2\<rparr>),
       history := [\<lparr>sgeneration = 1, best_fitness = 1 / 2, avg_fitness = 1 / 2, diversity = 1,
                     spopulation_size = 1, improvements = 1\<rparr>],
       best_in_islands := True\<rparr>"


definition scored :: "evolver \<Rightarrow> candidate list" where
  \<comment> \<open>the candidates of all islands as the next generation step scores them: each
      unevaluated one with the fitness that \<^verbatim>\<open>_evaluate\<close> gives it\<close>
  "scored self = concat (map (evaluate_all self) (islands self))"

definition peak :: "candidate list list \<Rightarrow> real" where
  \<comment> \<open>the \<^verbatim>\<open>best_fitness\<close> that the statistics report for these islands\<close>
  "peak isls =
     (let fitnesses = filter (\<lambda>f. 0 < f) (map fitness (concat isls))
      in if fitnesses \<noteq> [] then Max (set fitnesses) else 0)"


definition record_fitness :: "candidate option \<Rightarrow> real" where
  \<comment> \<open>\<^verbatim>\<open>self.best_candidate.fitness if self.best_candidate else 0\<close>\<close>
  "record_fitness best = (case best of Some b \<Rightarrow> fitness b | None \<Rightarrow> 0)"

definition reproduced :: "evolver \<Rightarrow> candidate list \<Rightarrow> candidate list \<Rightarrow> bool" where
  \<comment> \<open>what the loop body makes of one island: the elite of the scored and sorted island,
      then unscored children up to the nominal size\<close>
  "reproduced self island new_island \<longleftrightarrow>
     island \<noteq> [] \<and> num_islands self \<noteq> 0
     \<and> (\<exists>children.
           new_island
             = (if elitism self
                then take (max 1 (length island div 5)) (sort_by_fitness (evaluate_all self island))
                else []) @ children
           \<and> (\<forall>c \<in> set children. fitness c = 0))
     \<and> int (length new_island)
          = max (if elitism self then int (min (length island) (max 1 (length island div 5)))
                 else 0)
                (population_size self div num_islands self)"

fun observed :: "nat \<Rightarrow> evolver \<Rightarrow> rng \<Rightarrow> candidate list" where
  \<comment> \<open>the candidates scored in the next \<open>n\<close> generation steps, over all islands\<close>
  "observed 0 self g = []"
| "observed (Suc n) self g =
     scored self @
     (case evolve_generation self g of
        Inr (stats, self', g') \<Rightarrow> observed n self' g'
      | Inl e \<Rightarrow> [])"

definition scenario_A :: config where
  \<comment> \<open>Scenario A of the specification, with the defaults of \<^verbatim>\<open>run_evolution\<close> elsewhere\<close>
  "scenario_A =
     \<lparr>cfg_task_id = ''scenario_a'', cfg_seed = ''hello world'',
      cfg_evaluation_criteria = ''hello'', cfg_max_generations = 1, cfg_population_size = 4,
      cfg_num_islands = 2, cfg_mutation_model = default_model,
      cfg_evaluation_model = default_model, cfg_elitism = True, cfg_crossover_rate = 0.6,
      cfg_mutation_rate = 0.4, cfg_output_dir = ''.''\<rparr>"

definition ring_config :: config where
  \<comment> \<open>five generations on two islands of one candidate\<close>
  "ring_config =
     \<lparr>cfg_task_id = ''ring'', cfg_seed = ''x'', cfg_evaluation_criteria = [],
      cfg_max_generations = 5, cfg_population_size = 2, cfg_num_islands = 2,
      cfg_mutation_model = default_model, cfg_evaluation_model = default_model,
      cfg_elitism = True, cfg_crossover_rate = 0.6, cfg_mutation_rate = 0.4,
      cfg_output_dir = ''.''\<rparr>"

definition single_config :: config where
  \<comment> \<open>five generations on one island of one candidate\<close>
  "single_config = ring_config\<lparr>cfg_task_id := ''single'', cfg_population_size := 1,
     cfg_num_islands := 1\<rparr>"


definition ring_elite :: candidate where
  "ring_elite = (Candidate ''gen0_island0_0'' ''x'' 0 None None)\<lparr>fitness := 1 / 2\<rparr>"

definition ring_stats :: "int \<Rightarrow> real \<Rightarrow> nat \<Rightarrow> nat \<Rightarrow> generation_stats" where
  "ring_stats n d p i =
     \<lparr>sgeneration = n, best_fitness = 1 / 2, avg_fitness = 1 / 2, diversity = d,
      spopulation_size = p, improvements = i\<rparr>"

definition ring_start :: evolver where
  \<comment> \<open>the evolver built for \<open>ring_config\<close>\<close>
  "ring_start =
     default_evolver\<lparr>seed := ''x'', population_size := 2,
       islands := [[Candidate ''gen0_island0_0'' ''x'' 0 None None],
                   [Candidate ''gen0_island0_0'' ''x'' 0 None None]]\<rparr>"

definition ring_at :: "int \<Rightarrow> generation_stats list \<Rightarrow> evolver" where
  \<comment> \<open>the evolver of \<open>ring_config\<close> between two of its generations\<close>
  "ring_at n h =
     ring_start\<lparr>islands := [[ring_elite], [ring_elite]], generation := n,
       best_candidate := Some ring_elite, history := h, best_in_islands := True\<rparr>"

definition ring_final :: evolver where
  \<comment> \<open>the evolver of \<open>ring_config\<close> after its five generations\<close>
  "ring_final =
     ring_start\<lparr>islands := [[ring_elite, ring_elite], [ring_elite, ring_elite]], generation := 5,
       best_candidate := Some ring_elite,
       history := [ring_stats 1 (1 / 2) 2 1, ring_stats 2 (1 / 2) 2 0, ring_stats 3 (1 / 2) 2 0,
                   ring_stats 4 (1 / 2) 2 0, ring_stats 5 (1 / 4) 4 0],
       best_in_islands := True\<rparr>"

definition single_start :: evolver where
  \<comment> \<open>the evolver built for \<open>single_config\<close>\<close>
  "single_start =
     default_evolver\<lparr>seed := ''x'', population_size := 1, num_islands := 1,
       islands := [[Candidate ''gen0_island0_0'' ''x'' 0 None None]]\<rparr>"

definition single_at :: "int \<Rightarrow> generation_stats list \<Rightarrow> evolver" where
  \<comment> \<open>the evolver of \<open>single_config\<close> after its generation \<open>n\<close>\<close>
  "single_at n h =
     single_start\<lparr>islands := [[ring_elite]], generation := n,
       best_candidate := Some ring_elite, history := h, best_in_islands := True\<rparr>"


section \<open>Basic facts\<close>

lemma bind_err_Inr [simp]: "bind_err (Inr x) f = f x"
  by (simp add: bind_err_def)

lemma bind_err_Inl [simp]: "bind_err (Inl e) f = Inl e"
  by (simp add: bind_err_def)

lemma bind_err_eq_Inr: "bind_err m f = Inr y \<longleftrightarrow> (\<exists>x. m = Inr x \<and> f x = Inr y)"
  by (cases m) simp_all

lemma randint_ok:
  "a \<le> b \<Longrightarrow> randint a b g = Inr (a + int (shd g mod nat (b - a + 1)), stl g)"
  by (simp add: randint_def)

subsection \<open>Words\<close>

lemma split_from_letters:
  "\<forall>c \<in> set u. \<not> isspace c \<Longrightarrow> split_from w (u @ s) = split_from (w @ u) s"
  by (induction u arbitrary: w) simp_all

lemma split_from_words:
  "\<forall>c \<in> set acc. \<not> isspace c \<Longrightarrow> \<forall>w \<in> set (split_from acc s). word w"
proof (induction s arbitrary: acc)
  case Nil
  then show ?case by (simp add: word_def)
next
  case (Cons c s)
  show ?case
  proof (cases "isspace c")
    case True
    have "\<forall>w \<in> set (split_from [] s). word w"
      by (rule Cons.IH) simp
    moreover have "acc \<noteq> [] \<Longrightarrow> word acc"
      using Cons.prems by (simp add: word_def)
    ultimately show ?thesis
      using True by simp
  next
    case False
    have "\<forall>w \<in> set (split_from (acc @ [c]) s). word w"
      by (rule Cons.IH) (use Cons.prems False in simp)
    then show ?thesis
      using False by simp
  qed
qed

lemma split_words: "\<forall>w \<in> set (split s). word w"
  using split_from_words [of "[]" s] by (simp add: split_def)

lemma split_join: "\<forall>w \<in> set ws. word w \<Longrightarrow> split (join ws) = ws"
proof (induction ws rule: join.induct)
  case 1
  show ?case by (simp add: split_def)
next
  case (2 w)
  then have "\<forall>c \<in> set w. \<not> isspace c" and "w \<noteq> []"
    by (simp_all add: word_def)
  then show ?case
    using split_from_letters [of w "[]" "[]"] by (simp add: split_def)
next
  case (3 w v ws)
  then have w: "\<forall>c \<in> set w. \<not> isspace c" "w \<noteq> []"
    by (simp_all add: word_def)
  have rest: "split (join (v # ws)) = v # ws"
    using 3 by simp
  have "split (join (w # v # ws)) = split_from w (CHR '' '' # join (v # ws))"
    using split_from_letters [OF w(1), of "[]"] by (simp add: split_def)
  also have "\<dots> = w # split (join (v # ws))"
    using w(2) by (simp add: split_def isspace_def)
  finally show ?case
    by (simp add: rest)
qed

section \<open>Crossover\<close>

text \<open>
  Claim C6, as the specification words it: crossover splits each parent at the midpoint of
  its own word sequence and joins the first half of parent 1 with the second half of
  parent 2. The code cuts both parents at one point, half the word count of the shorter
  parent. With a parent of four words and one of two, the child of the code is
  \<open>''a y''\<close>, the child of the specification \<open>''a b y''\<close>.
\<close>

theorem crossover_own_midpoints_counterexample:
  "crossover default_evolver (Candidate ''p1'' ''a b c d'' 0 None None)
     (Candidate ''p2'' ''x y'' 0 None None) (sconst 0)
     = Inr (Candidate ''gen0_cross_0'' ''a y'' 0 (Some ''p1'') (Some ''crossover''), sconst 0)
   \<and> crossover_at_own_midpoints ''a b c d'' ''x y'' = ''a b y''"
  by (simp add: crossover_def crossover_at_own_midpoints_def split_def isspace_def
        randint_def Candidate_def default_evolver_def str_int_def str_nat.simps digit_def)

text \<open>
  Claim C6, amended: for every two parents, crossover cuts both word sequences at the same
  point, half the number of words of the shorter parent (rounded down); the words of the
  child are the words of parent 1 before that point followed by the words of parent 2 from
  that point on; it returns one new child with \<^verbatim>\<open>mutation_type = "crossover"\<close> and
  \<^verbatim>\<open>parent_id\<close> equal to the id of parent 1. It never raises.
\<close>

theorem crossover_common_point:
  "\<exists>child g'. crossover self parent1 parent2 g = Inr (child, g')
     \<and> split (content child) =
         take (min (length (split (content parent1))) (length (split (content parent2))) div 2)
           (split (content parent1))
         @ drop (min (length (split (content parent1))) (length (split (content parent2))) div 2)
           (split (content parent2))
     \<and> mutation_type child = Some ''crossover''
     \<and> parent_id child = Some (cid parent1)"
proof -
  let ?p = "min (length (split (content parent1))) (length (split (content parent2))) div 2"
  let ?ws = "take ?p (split (content parent1)) @ drop ?p (split (content parent2))"
  have "\<forall>w \<in> set ?ws. word w"
    using split_words [of "content parent1"] split_words [of "content parent2"]
    by (auto dest: in_set_takeD in_set_dropD)
  then have "split (join ?ws) = ?ws"
    by (rule split_join)
  then show ?thesis
    by (simp add: crossover_def Let_def randint_ok Candidate_def)
qed

section \<open>Construction\<close>

subsection \<open>Construction never raises\<close>

lemma sample_from_two: "\<exists>i j g'. sample_from xs 2 g = ([i, j], g')"
  by (simp add: numeral_2_eq_2 Let_def split: prod.split)

lemma swap_words_ok: "\<exists>r. swap_words text g = Inr r"
proof (cases "length (split text) < 2")
  case True
  then show ?thesis by (simp add: swap_words_def)
next
  case False
  obtain i j g' where "sample_from [0..<length (split text)] 2 g = ([i, j], g')"
    using sample_from_two [of "[0..<length (split text)]" g] by auto
  with False show ?thesis
    by (simp add: swap_words_def sample_def Let_def)
qed

lemma insert_phrase_ok: "\<exists>r. insert_phrase text g = Inr r"
  by (simp add: insert_phrase_def Let_def randint_ok choice_def phrases_def)

lemma mutate_text_ok: "\<exists>r. mutate_text text g = Inr r"
proof -
  obtain m where m: "choice mutations g = Inr (m, stl g)"
    by (simp add: choice_def mutations_def)
  show ?thesis
    using swap_words_ok insert_phrase_ok by (cases m) (simp_all add: mutate_text_def m)
qed

lemma initial_loop_ok:
  "\<exists>pop' g'. initial_loop self idxs pop g = Inr (pop', g')
      \<and> length pop' = length pop + length idxs"
proof (induction idxs arbitrary: pop g)
  case Nil
  show ?case by simp
next
  case (Cons i idxs)
  obtain t g1 where first:
    "(if 0 < i then mutate_text (seed self) g else Inr (seed self, g)) = Inr (t, g1)"
    using mutate_text_ok [of "seed self" g] by (cases "0 < i") auto
  show ?case
    using Cons.IH [of "pop @ [Candidate (''gen0_island'' @ str_nat (length pop) @ ''_'' @ str_nat i) t 0 None None]" g1]
    by (simp add: first)
qed

lemma create_initial_population_ok:
  "num_islands self \<noteq> 0 \<Longrightarrow>
   \<exists>pop g'. create_initial_population self g = Inr (pop, g')
      \<and> length pop = nat (population_size self div num_islands self)"
  using initial_loop_ok [of self "[0..<nat (population_size self div num_islands self)]" "[]" g]
  by (simp add: create_initial_population_def)

lemma build_islands_ok:
  "n = 0 \<or> num_islands self \<noteq> 0 \<Longrightarrow>
   \<exists>isls g'. build_islands self n g = Inr (isls, g')
      \<and> map length isls = replicate n (nat (population_size self div num_islands self))"
proof (induction n arbitrary: g)
  case 0
  show ?case by simp
next
  case (Suc n)
  then have nz: "num_islands self \<noteq> 0" by simp
  obtain pop g1 where pop: "create_initial_population self g = Inr (pop, g1)"
      "length pop = nat (population_size self div num_islands self)"
    using create_initial_population_ok [OF nz] by blast
  obtain isls g2 where isls: "build_islands self n g1 = Inr (isls, g2)"
      "map length isls = replicate n (nat (population_size self div num_islands self))"
    using Suc.IH [of g1] nz by blast
  show ?case
    by (simp add: pop isls)
qed

lemma init_result:
  "\<exists>isls g'. init sd criteria psize nislands mmodel emodel elit crate mrate g
       = Inr (\<lparr>seed = sd, evaluation_criteria = criteria, population_size = psize,
               num_islands = nislands, mutation_model = mmodel, evaluation_model = emodel,
               elitism = elit, crossover_rate = crate, mutation_rate = mrate,
               islands = isls, generation = 0, best_candidate = None, history = [],
                  best_in_islands = False\<rparr>, g')
     \<and> map length isls = replicate (nat nislands) (nat (psize div nislands))"
proof -
  let ?self = "\<lparr>seed = sd, evaluation_criteria = criteria, population_size = psize,
                  num_islands = nislands, mutation_model = mmodel, evaluation_model = emodel,
                  elitism = elit, crossover_rate = crate, mutation_rate = mrate,
                  islands = [], generation = 0, best_candidate = None, history = [],
                  best_in_islands = False\<rparr>"
  have "nat nislands = 0 \<or> num_islands ?self \<noteq> 0"
    by auto
  from build_islands_ok [OF this, of g]
  obtain isls g' where "build_islands ?self (nat nislands) g = Inr (isls, g')"
      "map length isls = replicate (nat nislands) (nat (psize div nislands))"
    by auto
  then show ?thesis
    by (simp add: init_def)
qed

text \<open>
  Claim C2, as stated: construction fails exactly when \<^verbatim>\<open>num_islands < 1\<close> or
  \<^verbatim>\<open>population_size < num_islands\<close>. The constructor checks neither: with no island to
  build it returns an evolver without islands, and with fewer candidates than islands it
  returns islands that are empty.
\<close>

theorem init_fails_counterexample:
  "init ''s'' ''c'' 10 0 default_model default_model True 0.6 0.4 (sconst 0)
     = Inr (default_evolver\<lparr>seed := ''s'', evaluation_criteria := ''c'', num_islands := 0\<rparr>,
            sconst 0)
   \<and> init ''s'' ''c'' 1 2 default_model default_model True 0.6 0.4 (sconst 0)
     = Inr (default_evolver\<lparr>seed := ''s'', evaluation_criteria := ''c'', population_size := 1,
              islands := [[], []]\<rparr>, sconst 0)"
  by (simp add: init_def default_evolver_def create_initial_population_def numeral_2_eq_2)

text \<open>
  Claim C2, amended: construction never signals an error. For every seed, population size
  and island count it returns an evolver with \<^verbatim>\<open>max(num_islands, 0)\<close> islands of
  \<^verbatim>\<open>max(population_size // num_islands, 0)\<close> candidates each, at generation 0, with no best
  candidate and an empty history; for \<^verbatim>\<open>1 \<le> num_islands \<le> population_size\<close> these are
  \<^verbatim>\<open>num_islands\<close> islands of \<^verbatim>\<open>population_size // num_islands\<close> candidates.
\<close>

theorem init_never_fails:
  "\<exists>ev g'. init sd criteria psize nislands mmodel emodel elit crate mrate g = Inr (ev, g')
     \<and> map length (islands ev) = replicate (nat nislands) (nat (psize div nislands))
     \<and> generation ev = 0 \<and> best_candidate ev = None \<and> history ev = []"
  using init_result [of sd criteria psize nislands mmodel emodel elit crate mrate g]
  by auto

section \<open>Evaluation on concrete inputs\<close>

lemma build_islands_numeral [simp]:
  "build_islands self (numeral k) g =
     bind_err (create_initial_population self g) (\<lambda>(island, g').
     bind_err (build_islands self (pred_numeral k) g') (\<lambda>(rest, g'').
       Inr (island # rest, g'')))"
  by (simp add: numeral_eq_Suc)

lemma sample_from_numeral [simp]:
  "sample_from xs (numeral k) g =
     (let i = shd g mod length xs;
          (ys, g') = sample_from (take i xs @ drop (Suc i) xs) (pred_numeral k) (stl g)
      in (xs ! i # ys, g'))"
  by (simp add: numeral_eq_Suc)

lemma generation_loop_numeral [simp]:
  "generation_loop (numeral k) dir task_id ev g fs =
     bind_err (evolve_generation ev g) (\<lambda>(stats, ev', g').
       generation_loop (pred_numeral k) dir task_id ev' g'
         (fs(checkpoint_path dir task_id \<mapsto> checkpoint_of task_id ev',
             status_path dir task_id \<mapsto> status_of True ev')))"
  by (simp add: numeral_eq_Suc)

lemma evolve_generations_numeral [simp]:
  "evolve_generations (numeral k) ev g =
     bind_err (evolve_generation ev g) (\<lambda>(stats, ev', g').
       evolve_generations (pred_numeral k) ev' g')"
  by (simp add: numeral_eq_Suc)

lemma lower_char_unfold:
  "lower_char c =
     (
      if c = CHR ''A'' then CHR ''a'' else if c = CHR ''B'' then CHR ''b'' else
      if c = CHR ''C'' then CHR ''c'' else if c = CHR ''D'' then CHR ''d'' else
      if c = CHR ''E'' then CHR ''e'' else if c = CHR ''F'' then CHR ''f'' else
      if c = CHR ''G'' then CHR ''g'' else if c = CHR ''H'' then CHR ''h'' else
      if c = CHR ''I'' then CHR ''i'' else if c = CHR ''J'' then CHR ''j'' else
      if c = CHR ''K'' then CHR ''k'' else if c = CHR ''L'' then CHR ''l'' else
      if c = CHR ''M'' then CHR ''m'' else if c = CHR ''N'' then CHR ''n'' else
      if c = CHR ''O'' then CHR ''o'' else if c = CHR ''P'' then CHR ''p'' else
      if c = CHR ''Q'' then CHR ''q'' else if c = CHR ''R'' then CHR ''r'' else
      if c = CHR ''S'' then CHR ''s'' else if c = CHR ''T'' then CHR ''t'' else
      if c = CHR ''U'' then CHR ''u'' else if c = CHR ''V'' then CHR ''v'' else
      if c = CHR ''W'' then CHR ''w'' else if c = CHR ''X'' then CHR ''x'' else
      if c = CHR ''Y'' then CHR ''y'' else if c = CHR ''Z'' then CHR ''z'' else
      c)"
  by (simp add: lower_char_def)

lemmas string_eval = split_def isspace_def strip_def lower_def lower_char_unfold digit_def
  str_int_def str_nat.simps

lemmas random_eval = random_random_def randint_def choice_def sample_def

lemmas init_eval = init_def create_initial_population_def Candidate_def mutate_text_def
  mutations_def swap_words_def insert_phrase_def phrases_def Let_def upt_conv_Cons

lemmas step_eval = evolve_generation_def process_island_def evaluate_all_def evaluate_def
  sort_by_fitness_def make_child_def mutate_def crossover_def mutate_text_def mutations_def
  swap_words_def insert_phrase_def phrases_def Candidate_def calculate_stats_def migrate_def
  fill_offspring.simps Let_def List.card_set upt_conv_Cons

lemma pareto_init:
  "init ''x'' ''Additionally,'' 4 2 default_model default_model True (3 / 5) (2 / 5) pareto_draws
     = Inr (pareto_state\<lparr>islands :=
              [[Candidate ''gen0_island0_0'' ''x'' 0 None None,
                Candidate ''gen0_island1_1'' ''Additionally, x'' 0 None None],
               [Candidate ''gen0_island0_0'' ''x'' 0 None None,
                Candidate ''gen0_island1_1'' ''x'' 0 None None]],
              generation := 0, best_candidate := None, history := [],
              best_in_islands := False\<rparr>,
            9007199254740991 ## 0 ## 7 ## 6 ## 9007199254740991 ## 0 ## 8 ## 6 ## sconst 0)"
  by (simp add: pareto_state_def pareto_draws_def init_eval string_eval random_eval)

lemma pareto_step:
  "evolve_generation
     (pareto_state\<lparr>islands :=
              [[Candidate ''gen0_island0_0'' ''x'' 0 None None,
                Candidate ''gen0_island1_1'' ''Additionally, x'' 0 None None],
               [Candidate ''gen0_island0_0'' ''x'' 0 None None,
                Candidate ''gen0_island1_1'' ''x'' 0 None None]],
              generation := 0, best_candidate := None, history := [],
              best_in_islands := False\<rparr>)
     (9007199254740991 ## 0 ## 7 ## 6 ## 9007199254740991 ## 0 ## 8 ## 6 ## sconst 0)
     = Inr (last (history pareto_state), pareto_state, sconst 0)"
  by (simp add: pareto_state_def pareto_elite0_def pareto_child0_def pareto_elite1_def
        pareto_child1_def step_eval string_eval random_eval)

lemma pareto_run:
  "map_sum id fst (create_and_run pareto_config pareto_draws Map.empty) = Inr pareto_state"
  by (simp add: create_and_run_def pareto_config_def pareto_init pareto_step)

section \<open>The pareto front\<close>

text \<open>
  Claim C8, as stated: \<^verbatim>\<open>get_pareto_front\<close> leaves every field of every candidate of
  every island unchanged, the novelty included. The loop stores the novelty it computes
  in the candidates themselves, which are the members of the islands: on the evolver built
  for one island of one candidate, the novelty of that candidate is \<open>0\<close> before the call
  and \<open>1\<close> after it.
\<close>

theorem pareto_front_writes_novelty_counterexample:
  "init ''x'' [] 1 1 default_model default_model True 0.6 0.4 (sconst 0)
     = Inr (default_evolver\<lparr>seed := ''x'', population_size := 1, num_islands := 1,
              islands := [[Candidate ''gen0_island0_0'' ''x'' 0 None None]]\<rparr>, sconst 0)
   \<and> islands (snd (get_pareto_front
         (default_evolver\<lparr>seed := ''x'', population_size := 1, num_islands := 1,
            islands := [[Candidate ''gen0_island0_0'' ''x'' 0 None None]]\<rparr>)))
     = [[(Candidate ''gen0_island0_0'' ''x'' 0 None None)\<lparr>novelty := 1\<rparr>]]
   \<and> novelty (Candidate ''gen0_island0_0'' ''x'' 0 None None) = 0"
  by (simp add: default_evolver_def init_eval string_eval get_pareto_front_def novelty_in_def)

text \<open>
  Claim C8, amended: for every evolver, \<^verbatim>\<open>get_pareto_front\<close> leaves the membership and
  the order of every island and every field of every candidate other than \<^verbatim>\<open>novelty\<close>
  unchanged; the \<^verbatim>\<open>novelty\<close> of each island member is overwritten with its novelty among
  all candidates, and with it the \<^verbatim>\<open>novelty\<close> of \<^verbatim>\<open>best_candidate\<close> when that is one of the
  island members, as it is after a generation with elitism. Nothing else of the evolver
  is written.
\<close>

theorem pareto_front_keeps_all_but_novelty:
  "map (map (\<lambda>c. c\<lparr>novelty := 0\<rparr>)) (islands (snd (get_pareto_front self)))
     = map (map (\<lambda>c. c\<lparr>novelty := 0\<rparr>)) (islands self)
   \<and> map (map novelty) (islands (snd (get_pareto_front self)))
     = map (map (novelty_in (concat (islands self)))) (islands self)
   \<and> best_candidate (snd (get_pareto_front self))
     = (if best_in_islands self
        then map_option (\<lambda>b. b\<lparr>novelty := novelty_in (concat (islands self)) b\<rparr>)
               (best_candidate self)
        else best_candidate self)
   \<and> (snd (get_pareto_front self))\<lparr>islands := islands self,
         best_candidate := best_candidate self\<rparr> = self"
  by (simp add: get_pareto_front_def Let_def comp_def)

text \<open>
  After the generation of the run of \<open>pareto_config\<close> the best candidate is the first
  member of the first island: the call gives it the novelty \<open>2 / 3\<close>. A best candidate that
  is no island member, as the one read from a checkpoint, keeps its novelty.
\<close>

theorem pareto_front_keeps_all_but_novelty_witness:
  "best_in_islands pareto_state
   \<and> best_candidate pareto_state = Some pareto_elite0
   \<and> novelty pareto_elite0 = 0
   \<and> best_candidate (snd (get_pareto_front pareto_state))
       = Some (pareto_elite0\<lparr>novelty := 2 / 3\<rparr>)
   \<and> best_candidate (snd (get_pareto_front (pareto_state\<lparr>best_in_islands := False\<rparr>)))
       = Some pareto_elite0"
proof -
  from pareto_front_keeps_all_but_novelty [of pareto_state]
  have "best_candidate (snd (get_pareto_front pareto_state))
     = (if best_in_islands pareto_state
        then map_option (\<lambda>b. b\<lparr>novelty := novelty_in (concat (islands pareto_state)) b\<rparr>)
               (best_candidate pareto_state)
        else best_candidate pareto_state)"
    by blast
  moreover from pareto_front_keeps_all_but_novelty [of "pareto_state\<lparr>best_in_islands := False\<rparr>"]
  have "best_candidate (snd (get_pareto_front (pareto_state\<lparr>best_in_islands := False\<rparr>)))
     = best_candidate pareto_state"
    by simp
  ultimately show ?thesis
    by (simp add: novelty_in_def pareto_state_def pareto_elite0_def pareto_child0_def
          pareto_elite1_def pareto_child1_def Let_def string_eval List.card_set)
qed

text \<open>
  Claim C9, as stated: no candidate of the returned front has strictly lower fitness and
  strictly lower novelty than another candidate of the front. The front is the first ten
  candidates by \<open>fitness + 0.5 * novelty\<close>, dominated ones included: after one generation
  of a run on two islands of two candidates, all four candidates are returned, and the
  second has lower fitness and lower novelty than the first.
\<close>

theorem pareto_front_dominated_counterexample:
  "map_sum id fst (create_and_run pareto_config pareto_draws Map.empty) = Inr pareto_state
   \<and> fst (get_pareto_front pareto_state)
       = [pareto_elite0\<lparr>novelty := 2 / 3\<rparr>, pareto_elite1\<lparr>novelty := 0\<rparr>,
          pareto_child0\<lparr>novelty := 2 / 3\<rparr>, pareto_child1\<lparr>novelty := 0\<rparr>]
   \<and> fitness (pareto_elite1\<lparr>novelty := 0\<rparr>) < fitness (pareto_elite0\<lparr>novelty := 2 / 3\<rparr>)
   \<and> novelty (pareto_elite1\<lparr>novelty := 0\<rparr>) < novelty (pareto_elite0\<lparr>novelty := 2 / 3\<rparr>)"
  by (simp add: pareto_run)
     (simp add: get_pareto_front_def novelty_in_def pareto_state_def pareto_elite0_def
        pareto_child0_def pareto_elite1_def pareto_child1_def Let_def string_eval List.card_set)

text \<open>
  Claim C9, amended: for every evolver the returned front has size
  \<open>min 10 (total number of candidates)\<close>, and it is the beginning of a ranking of all
  candidates by \<open>fitness + 0.5 * novelty\<close> in descending order: the front is in
  descending order of that score and every candidate left out scores no more than every
  candidate returned.
\<close>

theorem pareto_front_top_ranked:
  "\<exists>rest. mset (fst (get_pareto_front self) @ rest)
             = mset (concat (islands (snd (get_pareto_front self))))
     \<and> sorted_wrt (\<lambda>c d. fitness d + novelty d * 0.5 \<le> fitness c + novelty c * 0.5)
           (fst (get_pareto_front self) @ rest)
     \<and> length (fst (get_pareto_front self)) = min 10 (length (concat (islands self)))"
proof -
  let ?all = "concat (islands self)"
  let ?assign = "\<lambda>c. c\<lparr>novelty := novelty_in ?all c\<rparr>"
  let ?key = "\<lambda>c. - (fitness c + novelty c * 0.5)"
  let ?ranked = "sort_key ?key (map ?assign ?all)"
  have front: "fst (get_pareto_front self) = take 10 ?ranked"
    by (simp add: get_pareto_front_def Let_def)
  have after: "concat (islands (snd (get_pareto_front self))) = map ?assign ?all"
    by (simp add: get_pareto_front_def Let_def map_concat)
  have "sorted (map ?key ?ranked)"
    by (rule sorted_sort_key)
  then have "sorted_wrt (\<lambda>c d. ?key c \<le> ?key d) ?ranked"
    by (simp add: sorted_map)
  then have ranked: "sorted_wrt (\<lambda>c d. fitness d + novelty d * 0.5 \<le> fitness c + novelty c * 0.5)
      ?ranked"
    by (rule sorted_wrt_mono_rel [rotated]) simp
  have "mset (take 10 ?ranked @ drop 10 ?ranked) = mset (map ?assign ?all)"
    by simp
  moreover have "length (take 10 ?ranked) = min 10 (length ?all)"
    by simp
  ultimately show ?thesis
    unfolding front after using ranked
    by (intro exI [of _ "drop 10 ?ranked"]) simp
qed


section \<open>Checkpoints\<close>

subsection \<open>Decoding what was encoded\<close>

lemma candidate_of_json_asdict [simp]: "candidate_of_json (asdict_candidate c) = Inr c"
  by (cases "parent_id c"; cases "mutation_type c")
     (simp_all add: candidate_of_json_def asdict_candidate_def keyword_def json_opt_def)

lemma stats_of_json_asdict [simp]: "stats_of_json (asdict_stats h) = Inr h"
  by (simp add: stats_of_json_def asdict_stats_def keyword_def)

lemma for_each_map: "(\<And>x. f (h x) = Inr x) \<Longrightarrow> for_each f (map h xs) = Inr xs"
  by (induction xs) simp_all

lemma for_each_as_list: "for_each as_list (map (\<lambda>x. JList (h x)) xs) = Inr (map h xs)"
  by (induction xs) simp_all

lemma for_each_candidates:
  "for_each (for_each candidate_of_json) (map (map asdict_candidate) isls) = Inr isls"
  by (rule for_each_map) (simp add: for_each_map)

lemma load_checkpoint_of:
  "\<exists>ev' g'. load_evolver (checkpoint_of task_id ev) g = Inr (ev', g')
     \<and> evaluation_criteria ev' = ''Continue evolution''
     \<and> generation ev' = generation ev
     \<and> best_candidate ev' = best_candidate ev
     \<and> islands ev' = islands ev
     \<and> history ev' = history ev"
proof -
  let ?sd = "case best_candidate ev of Some b \<Rightarrow> content b | None \<Rightarrow> []"
  obtain isls g' where built:
    "init ?sd ''Continue evolution'' (int (sum_list (map length (islands ev))))
       (int (length (islands ev))) default_model default_model True (3 / 5) (2 / 5) g
     = Inr (\<lparr>seed = ?sd, evaluation_criteria = ''Continue evolution'',
             population_size = int (sum_list (map length (islands ev))),
             num_islands = int (length (islands ev)), mutation_model = default_model,
             evaluation_model = default_model, elitism = True, crossover_rate = 3 / 5,
             mutation_rate = 2 / 5, islands = isls, generation = 0, best_candidate = None,
             history = [], best_in_islands = False\<rparr>, g')"
    using init_result by blast
  have lists: "for_each as_list (map (\<lambda>island. JList (map asdict_candidate island)) (islands ev))
      = Inr (map (map asdict_candidate) (islands ev))"
    by (rule for_each_as_list)
  show ?thesis
  proof (cases "best_candidate ev")
    case None
    with built lists show ?thesis
      by (simp add: load_evolver_def checkpoint_of_def subscript_def for_each_candidates
            for_each_map comp_def)
  next
    case (Some b)
    with built lists show ?thesis
      by (simp add: load_evolver_def checkpoint_of_def subscript_def for_each_candidates
            for_each_map comp_def asdict_candidate_def [of b] candidate_of_json_asdict [of b, unfolded asdict_candidate_def])
  qed
qed


text \<open>
  Claim C5: the checkpoint round trip is lossless. For every evolver and task id, the
  evolver that \<^verbatim>\<open>continue_evolution\<close> reconstructs from the checkpoint written for it has
  the same generation, best candidate, islands (every candidate of every island, in
  order) and history, and the checkpoint written for the reconstructed evolver under the
  task id is the same document; resuming for no additional generation writes back the
  file it has read.
\<close>

theorem checkpoint_round_trip:
  "\<exists>ev' g'. load_evolver (checkpoint_of task_id ev) g = Inr (ev', g')
     \<and> generation ev' = generation ev
     \<and> best_candidate ev' = best_candidate ev
     \<and> islands ev' = islands ev
     \<and> history ev' = history ev
     \<and> checkpoint_of task_id ev' = checkpoint_of task_id ev
     \<and> (\<exists>result. continue_evolution task_id 0 dir g
                      (fs(checkpoint_path dir task_id \<mapsto> checkpoint_of task_id ev))
                    = Inr (result, g',
                           fs(checkpoint_path dir task_id \<mapsto> checkpoint_of task_id ev)))"
proof -
  obtain ev' g' where loaded: "load_evolver (checkpoint_of task_id ev) g = Inr (ev', g')"
      "generation ev' = generation ev" "best_candidate ev' = best_candidate ev"
      "islands ev' = islands ev" "history ev' = history ev"
    using load_checkpoint_of by blast
  then have same: "checkpoint_of task_id ev' = checkpoint_of task_id ev"
    by (simp add: checkpoint_of_def)
  show ?thesis
    using loaded same by (simp add: continue_evolution_def resume_def)
qed

section \<open>Resuming\<close>

subsection \<open>What a generation leaves alone\<close>

lemma evolve_generation_fields:
  assumes "evolve_generation self g = Inr (stats, self', g')"
  shows "self' = self\<lparr>generation := generation self + 1, islands := islands self',
            best_candidate := best_candidate self', history := history self @ [stats],
            best_in_islands := best_in_islands self'\<rparr>"
  using assms
  by (auto simp: evolve_generation_def Let_def bind_err_eq_Inr split: if_splits)

lemma evolve_generations_criteria:
  "evolve_generations n self g = Inr (self', g') \<Longrightarrow>
   evaluation_criteria self' = evaluation_criteria self"
proof (induction n arbitrary: self g)
  case 0
  then show ?case by simp
next
  case (Suc n)
  then obtain stats mid g1 where step: "evolve_generation self g = Inr (stats, mid, g1)"
      and rest: "evolve_generations n mid g1 = Inr (self', g')"
    by (auto simp: bind_err_eq_Inr)
  have "evaluation_criteria mid = evaluation_criteria self"
    by (subst evolve_generation_fields [OF step]) simp
  with Suc.IH [OF rest] show ?case by simp
qed

lemma load_evolver_criteria:
  assumes "load_evolver checkpoint g = Inr (ev, g')"
  shows "evaluation_criteria ev = ''Continue evolution''"
proof -
  from assms obtain sd p n ev0 gen isls best hist where
      built: "init sd ''Continue evolution'' p n default_model default_model True 0.6 0.4 g
                = Inr (ev0, g')"
      and ev: "ev = ev0\<lparr>generation := gen, islands := isls, best_candidate := best, history := hist\<rparr>"
    by (auto simp: load_evolver_def bind_err_eq_Inr)
  from init_result [of sd "''Continue evolution''" p n default_model default_model True "0.6" "0.4" g]
    built have "evaluation_criteria ev0 = ''Continue evolution''"
    by auto
  with ev show ?thesis by simp
qed

lemma evaluate_criteria:
  "evaluation_criteria a = evaluation_criteria b \<Longrightarrow> evaluate a c = evaluate b c"
  by (simp add: evaluate_def)

text \<open>
  Claim C10: for every resume of a checkpoint, whatever the number of additional
  generations, the evolver has the evaluation criteria \<open>''Continue evolution''\<close>, so
  that it scores every candidate against that string; the checkpoint does not record the
  criteria of the run that wrote it.
\<close>

theorem resume_scores_against_fixed_criteria:
  assumes "resume checkpoint additional_generations g = Inr (ev, g')"
  shows "evaluation_criteria ev = ''Continue evolution''
     \<and> evaluate ev c = evaluate (default_evolver\<lparr>evaluation_criteria := ''Continue evolution''\<rparr>) c
     \<and> checkpoint_of task_id (orig\<lparr>evaluation_criteria := criteria\<rparr>) = checkpoint_of task_id orig"
proof -
  from assms obtain ev0 g0 where loaded: "load_evolver checkpoint g = Inr (ev0, g0)"
      and run: "evolve_generations (nat additional_generations) ev0 g0 = Inr (ev, g')"
    by (auto simp: resume_def bind_err_eq_Inr)
  have "evaluation_criteria ev = ''Continue evolution''"
    using evolve_generations_criteria [OF run] load_evolver_criteria [OF loaded] by simp
  then show ?thesis
    by (simp add: evaluate_criteria [of ev "default_evolver\<lparr>evaluation_criteria := ''Continue evolution''\<rparr>"]
          checkpoint_of_def)
qed

lemma resume_example_run:
  "resume (checkpoint_of ''t'' resume_example) 1 (sconst 0) = Inr (resumed_example, sconst 0)"
  by (simp add: resume_def load_evolver_def checkpoint_of_def subscript_def resume_example_def
        resumed_example_def default_evolver_def asdict_candidate_def candidate_of_json_def
        keyword_def json_opt_def init_eval step_eval string_eval random_eval)

text \<open>
  A run built for the criteria \<open>''x''\<close> scores the candidate \<open>''x''\<close> at \<open>13 / 25\<close>; resumed from
  its checkpoint for one generation, the evolver scores it at \<open>1 / 2\<close>.
\<close>

theorem resume_scores_against_fixed_criteria_witness:
  "resume (checkpoint_of ''t'' resume_example) 1 (sconst 0) = Inr (resumed_example, sconst 0)
   \<and> evaluation_criteria resume_example = ''x''
   \<and> evaluation_criteria resumed_example = ''Continue evolution''
   \<and> evaluate resume_example (Candidate ''gen0_island0_0'' ''x'' 0 None None) = 13 / 25
   \<and> evaluate resumed_example (Candidate ''gen0_island0_0'' ''x'' 0 None None) = 1 / 2"
proof -
  note fixed = resume_scores_against_fixed_criteria [OF resume_example_run,
      where c = "Candidate ''gen0_island0_0'' ''x'' 0 None None" and task_id = "''t''"
        and orig = resume_example and criteria = "''x''"]
  have original: "evaluation_criteria resume_example = ''x''"
    by (simp add: resume_example_def default_evolver_def)
  have before: "evaluate resume_example (Candidate ''gen0_island0_0'' ''x'' 0 None None) = 13 / 25"
    by (simp add: evaluate_def original Candidate_def string_eval)
  have "evaluate (default_evolver\<lparr>evaluation_criteria := ''Continue evolution''\<rparr>)
          (Candidate ''gen0_island0_0'' ''x'' 0 None None) = 1 / 2"
    by (simp add: evaluate_def Candidate_def string_eval)
  with fixed have after: "evaluate resumed_example (Candidate ''gen0_island0_0'' ''x'' 0 None None) = 1 / 2"
    by simp
  from fixed have "evaluation_criteria resumed_example = ''Continue evolution''"
    by (rule conjunct1)
  with resume_example_run original before after show ?thesis
    by blast
qed


section \<open>One generation\<close>

subsection \<open>Scores\<close>

lemma evaluate_bounds: "1 / 2 \<le> evaluate self c \<and> evaluate self c \<le> 1"
proof -
  have "0 \<le> min (0.2::real) (real n * 0.02)" for n
    by simp
  then show ?thesis
    unfolding evaluate_def Let_def
    by (auto split: option.split simp: min_def)
qed

lemma evaluate_all_length [simp]: "length (evaluate_all self island) = length island"
  by (simp add: evaluate_all_def)

lemma evaluate_all_keeps:
  "c \<in> set island \<Longrightarrow> fitness c \<noteq> 0 \<Longrightarrow> c \<in> set (evaluate_all self island)"
  by (force simp: evaluate_all_def)

lemma evaluate_all_positive:
  "\<forall>c \<in> set island. 0 \<le> fitness c \<Longrightarrow> \<forall>c \<in> set (evaluate_all self island). 0 < fitness c"
proof
  fix c
  assume nonneg: "\<forall>c \<in> set island. 0 \<le> fitness c" and "c \<in> set (evaluate_all self island)"
  then obtain d where d: "d \<in> set island"
      and c: "c = (if fitness d = 0 then d\<lparr>fitness := evaluate self d\<rparr> else d)"
    by (auto simp: evaluate_all_def)
  show "0 < fitness c"
  proof (cases "fitness d = 0")
    case True
    with c evaluate_bounds [of self d] show ?thesis by simp
  next
    case False
    with c d nonneg show ?thesis by (simp add: order.strict_iff_order)
  qed
qed

lemma sort_by_fitness_set [simp]: "set (sort_by_fitness island) = set island"
  by (simp add: sort_by_fitness_def)

lemma sort_by_fitness_length [simp]: "length (sort_by_fitness island) = length island"
  by (simp add: sort_by_fitness_def)

lemma sort_by_fitness_leader:
  assumes "sort_by_fitness island = leader # rest" and "c \<in> set island"
  shows "fitness c \<le> fitness leader"
proof -
  have "sorted (map (\<lambda>c. - fitness c) (sort_by_fitness island))"
    unfolding sort_by_fitness_def by (rule sorted_sort_key)
  moreover have "c \<in> set (leader # rest)"
    using assms by (metis sort_by_fitness_set)
  ultimately show ?thesis
    using assms(1) by auto
qed

subsection \<open>Offspring\<close>

lemma crossover_unscored:
  "crossover self parent1 parent2 g = Inr (child, g') \<Longrightarrow> fitness child = 0"
  by (auto simp: crossover_def Let_def Candidate_def bind_err_eq_Inr)

lemma mutate_unscored: "mutate self parent g = Inr (child, g') \<Longrightarrow> fitness child = 0"
  by (auto simp: mutate_def Candidate_def bind_err_eq_Inr)

lemma make_child_unscored:
  assumes "make_child self island g = Inr (child, g')"
  shows "fitness child = 0"
proof (cases "fst (random_random g) < crossover_rate self \<and> 2 \<le> length island")
  case True
  with assms obtain parents g2 where
      "(case parents of p0 # p1 # _ \<Rightarrow> crossover self p0 p1 g2 | _ \<Rightarrow> Inl IndexError)
         = Inr (child, g')"
    by (auto simp: make_child_def bind_err_eq_Inr split: prod.splits)
  then show ?thesis
    by (cases parents rule: list.exhaust [case_product list.exhaust])
       (auto dest: crossover_unscored split: list.splits)
next
  case False
  with assms obtain parent g2 where "mutate self parent g2 = Inr (child, g')"
    by (auto simp: make_child_def bind_err_eq_Inr split: prod.splits)
  then show ?thesis
    by (rule mutate_unscored)
qed

lemma fill_offspring_result:
  assumes "fill_offspring self island new_island g = Inr (result, g')"
  shows "\<exists>children. result = new_island @ children \<and> (\<forall>c \<in> set children. fitness c = 0)
           \<and> num_islands self \<noteq> 0
           \<and> int (length result)
               = max (int (length new_island)) (population_size self div num_islands self)"
  using assms
proof (induction self island new_island g arbitrary: result g' rule: fill_offspring.induct)
  case (1 self island new_island g)
  from "1.prems" have nz: "num_islands self \<noteq> 0"
    by (subst (asm) fill_offspring.simps) (auto split: if_splits)
  show ?case
  proof (cases "int (length new_island) < population_size self div num_islands self")
    case False
    with "1.prems" nz have "result = new_island"
      by (subst (asm) fill_offspring.simps) simp
    with False nz show ?thesis by simp
  next
    case True
    with "1.prems" nz obtain child g1 where child: "make_child self island g = Inr (child, g1)"
        and rest: "fill_offspring self island (new_island @ [child]) g1 = Inr (result, g')"
      by (subst (asm) fill_offspring.simps) (auto simp: bind_err_eq_Inr)
    from "1.IH" [OF nz True rest] obtain children where
        "result = (new_island @ [child]) @ children" "\<forall>c \<in> set children. fitness c = 0"
        "int (length result)
           = max (int (length (new_island @ [child]))) (population_size self div num_islands self)"
      by blast
    with make_child_unscored [OF child] True nz show ?thesis
      by (intro exI [of _ "child # children"]) auto
  qed
qed

subsection \<open>One island\<close>

lemma process_island_result:
  assumes "process_island self island best improved g = Inr (new_island, best', improved', g')"
  shows "\<exists>leader rest children.
           sort_by_fitness (evaluate_all self island) = leader # rest
         \<and> best' = (if (case best of Some b \<Rightarrow> fitness b | None \<Rightarrow> 0) < fitness leader
                     then Some leader else best)
         \<and> improved' = (if (case best of Some b \<Rightarrow> fitness b | None \<Rightarrow> 0) < fitness leader
                         then improved + 1 else improved)
         \<and> new_island
              = (if elitism self then take (max 1 (length island div 5)) (leader # rest) else [])
                @ children
         \<and> (\<forall>c \<in> set children. fitness c = 0)
         \<and> num_islands self \<noteq> 0
         \<and> int (length new_island)
              = max (if elitism self then int (min (length island) (max 1 (length island div 5)))
                     else 0)
                    (population_size self div num_islands self)"
proof -
  from assms obtain leader rest where sorted: "sort_by_fitness (evaluate_all self island) = leader # rest"
    by (cases "sort_by_fitness (evaluate_all self island)") (auto simp: process_island_def)
  let ?elite = "if elitism self then take (max 1 (length island div 5)) (leader # rest) else []"
  have len: "length (leader # rest) = length island"
    using sorted [symmetric] by simp
  from assms sorted have filled: "fill_offspring self (leader # rest) ?elite g = Inr (new_island, g')"
      and best: "best' = (if (case best of Some b \<Rightarrow> fitness b | None \<Rightarrow> 0) < fitness leader
                     then Some leader else best)"
      and improved: "improved' = (if (case best of Some b \<Rightarrow> fitness b | None \<Rightarrow> 0) < fitness leader
                         then improved + 1 else improved)"
    using len by (auto simp: process_island_def Let_def bind_err_eq_Inr split: if_splits)
  from fill_offspring_result [OF filled] obtain children where
      "new_island = ?elite @ children" "\<forall>c \<in> set children. fitness c = 0" "num_islands self \<noteq> 0"
      "int (length new_island) = max (int (length ?elite)) (population_size self div num_islands self)"
    by blast
  moreover have "int (length ?elite)
      = (if elitism self then int (min (length island) (max 1 (length island div 5))) else 0)"
    using len by (simp del: length_Cons)
  ultimately show ?thesis
    using sorted best improved by (intro exI [of _ leader] exI [of _ rest] exI [of _ children]) simp
qed

lemma process_island_reproduced:
  assumes "process_island self island best improved g = Inr (new_island, best', improved', g')"
  shows "reproduced self island new_island"
proof -
  from process_island_result [OF assms] obtain leader rest children where
      sorted: "sort_by_fitness (evaluate_all self island) = leader # rest"
      and new: "new_island
                  = (if elitism self then take (max 1 (length island div 5)) (leader # rest) else [])
                    @ children"
      and rest: "\<forall>c \<in> set children. fitness c = 0" "num_islands self \<noteq> 0"
        "int (length new_island)
           = max (if elitism self then int (min (length island) (max 1 (length island div 5)))
                  else 0)
                 (population_size self div num_islands self)"
    by blast
  from sorted have "length island = length (leader # rest)"
    by (metis evaluate_all_length sort_by_fitness_length)
  then have "island \<noteq> []"
    by auto
  with sorted new rest show ?thesis
    unfolding reproduced_def by (intro conjI exI [of _ children]) simp_all
qed

lemma process_island_record:
  assumes "process_island self island best improved g = Inr (new_island, best', improved', g')"
  shows "record_fitness best \<le> record_fitness best'"
    and "\<forall>c \<in> set (evaluate_all self island). fitness c \<le> record_fitness best'"
    and "best' = best \<or> (\<exists>b \<in> set (evaluate_all self island). best' = Some b)"
    and "(\<forall>c \<in> set island. 0 \<le> fitness c) \<or> best \<noteq> None \<Longrightarrow> best' \<noteq> None"
proof -
  from process_island_result [OF assms] obtain leader rest where
      sorted: "sort_by_fitness (evaluate_all self island) = leader # rest"
      and best: "best' = (if record_fitness best < fitness leader then Some leader else best)"
    unfolding record_fitness_def by blast
  have leader: "leader \<in> set (evaluate_all self island)"
    using sorted by (metis list.set_intros(1) sort_by_fitness_set)
  show "record_fitness best \<le> record_fitness best'"
    using best by (simp add: record_fitness_def)
  show "\<forall>c \<in> set (evaluate_all self island). fitness c \<le> record_fitness best'"
  proof
    fix c assume "c \<in> set (evaluate_all self island)"
    then have "fitness c \<le> fitness leader"
      by (rule sort_by_fitness_leader [OF sorted])
    with best show "fitness c \<le> record_fitness best'"
      by (simp add: record_fitness_def)
  qed
  show "best' = best \<or> (\<exists>b \<in> set (evaluate_all self island). best' = Some b)"
    using best leader by auto
  show "best' \<noteq> None" if "(\<forall>c \<in> set island. 0 \<le> fitness c) \<or> best \<noteq> None"
  proof (cases best)
    case (Some b)
    with best show ?thesis by simp
  next
    case None
    with that have "\<forall>c \<in> set island. 0 \<le> fitness c"
      by simp
    then have "0 < fitness leader"
      using evaluate_all_positive leader by blast
    with best None show ?thesis
      by (simp add: record_fitness_def)
  qed
qed

lemma island_loop_reproduced:
  "island_loop self isls best improved g = Inr (new_islands, best', improved', g') \<Longrightarrow>
   list_all2 (reproduced self) isls new_islands"
proof (induction isls arbitrary: best improved g new_islands)
  case Nil
  then show ?case by simp
next
  case (Cons island isls)
  then obtain new_island b1 i1 g1 new_rest where
      first: "process_island self island best improved g = Inr (new_island, b1, i1, g1)"
      and rest: "island_loop self isls b1 i1 g1 = Inr (new_rest, best', improved', g')"
      and new: "new_islands = new_island # new_rest"
    by (auto simp: bind_err_eq_Inr)
  from process_island_reproduced [OF first] Cons.IH [OF rest] new show ?case
    by simp
qed

lemma island_loop_record:
  assumes "island_loop self isls best improved g = Inr (new_islands, best', improved', g')"
  shows "record_fitness best \<le> record_fitness best'
     \<and> (\<forall>c \<in> set (concat (map (evaluate_all self) isls)). fitness c \<le> record_fitness best')
     \<and> (best' = best \<or> (\<exists>b \<in> set (concat (map (evaluate_all self) isls)). best' = Some b))
     \<and> ((\<forall>c \<in> set (concat isls). 0 \<le> fitness c) \<and> isls \<noteq> [] \<or> best \<noteq> None
          \<longrightarrow> best' \<noteq> None)"
  using assms
proof (induction isls arbitrary: best improved g new_islands)
  case Nil
  then show ?case by simp
next
  case (Cons island isls)
  then obtain new_island b1 i1 g1 new_rest where
      first: "process_island self island best improved g = Inr (new_island, b1, i1, g1)"
      and rest: "island_loop self isls b1 i1 g1 = Inr (new_rest, best', improved', g')"
    by (auto simp: bind_err_eq_Inr)
  note one = process_island_record [OF first]
  note more = Cons.IH [OF rest]
  have "record_fitness best \<le> record_fitness best'"
    using one(1) more by simp
  moreover have "\<forall>c \<in> set (concat (map (evaluate_all self) (island # isls))).
      fitness c \<le> record_fitness best'"
    using one(2) more by fastforce
  moreover have "best' = best
      \<or> (\<exists>b \<in> set (concat (map (evaluate_all self) (island # isls))). best' = Some b)"
    using one(3) more by auto
  moreover have "best' \<noteq> None"
    if "(\<forall>c \<in> set (concat (island # isls)). 0 \<le> fitness c) \<and> island # isls \<noteq> [] \<or> best \<noteq> None"
  proof -
    from that have "b1 \<noteq> None"
      using one(4) by auto
    with more show ?thesis by simp
  qed
  ultimately show ?case by blast
qed

subsection \<open>Migration\<close>

lemma migrate_loop_length [simp]: "length (migrate_loop idxs isls) = length isls"
  by (induction idxs arbitrary: isls) (simp_all add: Let_def)

lemma migrate_length [simp]: "length (migrate isls) = length isls"
  by (simp add: migrate_def)

lemma migrate_loop_snoc:
  "migrate_loop (idxs @ [i]) isls =
     (let sent = migrate_loop idxs isls; next_island = (i + 1) mod length isls
      in if sent ! i \<noteq> [] then sent[next_island := sent ! next_island @ [hd (sent ! i)]]
         else sent)"
  by (induction idxs arbitrary: isls) (simp_all add: Let_def)

lemma migrate_loop_upto:
  assumes "\<forall>island \<in> set isls. island \<noteq> []" and "m \<le> length isls"
  shows "\<forall>j < length isls.
           migrate_loop [0..<m] isls ! j =
             isls ! j @ (if (j + length isls - 1) mod length isls < m
                         then [hd (isls ! ((j + length isls - 1) mod length isls))] else [])"
  using assms(2)
proof (induction m)
  case 0
  show ?case by simp
next
  case (Suc m)
  let ?n = "length isls"
  let ?sent = "migrate_loop [0..<m] isls"
  let ?pred = "\<lambda>j. (j + ?n - 1) mod ?n"
  from Suc.prems have m: "m < ?n" by simp
  have IH: "?sent ! j = isls ! j @ (if ?pred j < m then [hd (isls ! ?pred j)] else [])"
    if "j < ?n" for j
    using Suc that by simp
  have "isls ! m \<noteq> []"
    using assms(1) m by simp
  then have nonempty: "?sent ! m \<noteq> []" and head: "hd (?sent ! m) = hd (isls ! m)"
    by (simp_all add: IH [OF m])
  have step: "migrate_loop ([0..<m] @ [m]) isls
      = ?sent[(m + 1) mod ?n := ?sent ! ((m + 1) mod ?n) @ [hd (isls ! m)]]"
    using nonempty head by (simp add: migrate_loop_snoc Let_def)
  show ?case
  proof (intro allI impI)
    fix j assume j: "j < ?n"
    have "?pred j = j - 1" if "0 < j"
    proof -
      have "j + ?n - 1 = (j - 1) + ?n"
        using that by simp
      then have "?pred j = (j - 1) mod ?n"
        by (simp only: mod_add_self2)
      with j show ?thesis by simp
    qed
    moreover have "?pred 0 = ?n - 1"
      using j by auto
    ultimately have before: "?pred j = (if j = 0 then ?n - 1 else j - 1)"
      by auto
    have after: "(m + 1) mod ?n = (if m + 1 = ?n then 0 else m + 1)"
      using m by simp
    have pred_next: "?pred j = m \<longleftrightarrow> j = (m + 1) mod ?n"
      unfolding before after using m j by (simp split: if_splits) arith
    show "migrate_loop [0..<Suc m] isls ! j =
            isls ! j @ (if ?pred j < Suc m then [hd (isls ! ?pred j)] else [])"
    proof (cases "j = (m + 1) mod ?n")
      case True
      then have "?pred j = m" using pred_next by simp
      with True IH [OF j] j show ?thesis
        by (simp add: step)
    next
      case False
      then have "?pred j \<noteq> m" using pred_next by simp
      then have "?pred j < Suc m \<longleftrightarrow> ?pred j < m" by auto
      with False IH [OF j] show ?thesis
        by (simp add: step)
    qed
  qed
qed

lemma migrate_nth:
  assumes "\<forall>island \<in> set isls. island \<noteq> []" and "j < length isls"
  shows "migrate isls ! j
           = isls ! j @ [hd (isls ! ((j + length isls - 1) mod length isls))]"
proof -
  have "(j + length isls - 1) mod length isls < length isls"
    using assms(2) by (intro mod_less_divisor) auto
  with migrate_loop_upto [OF assms(1), of "length isls"] assms(2) show ?thesis
    by (simp add: migrate_def)
qed

lemma migrate_next:
  assumes "\<forall>island \<in> set isls. island \<noteq> []" and "i < length isls"
  shows "migrate isls ! ((i + 1) mod length isls)
           = isls ! ((i + 1) mod length isls) @ [hd (isls ! i)]"
proof -
  let ?n = "length isls"
  have round: "((i + 1) mod ?n + ?n - 1) mod ?n = i"
  proof (cases "i + 1 = ?n")
    case True
    with assms(2) show ?thesis by simp
  next
    case False
    with assms(2) have "(i + 1) mod ?n = i + 1" by simp
    with assms(2) show ?thesis by simp
  qed
  have "(i + 1) mod ?n < ?n"
    using assms(2) by (intro mod_less_divisor) auto
  from migrate_nth [OF assms(1) this] show ?thesis
    by (simp only: round)
qed

lemma nth_subset_concat: "j < length xss \<Longrightarrow> set (xss ! j) \<subseteq> set (concat xss)"
proof
  fix x
  assume "j < length xss" and x: "x \<in> set (xss ! j)"
  then have "xss ! j \<in> set xss"
    by simp
  with x show "x \<in> set (concat xss)"
    unfolding set_concat by blast
qed

lemma concat_member_nth:
  assumes "c \<in> set (concat xss)"
  obtains j where "j < length xss" and "c \<in> set (xss ! j)"
proof -
  from assms obtain xs where "xs \<in> set xss" and c: "c \<in> set xs"
    by auto
  then obtain j where "j < length xss" "xss ! j = xs"
    by (auto simp: in_set_conv_nth)
  with c that show ?thesis by blast
qed

lemma migrate_loop_grows:
  assumes "\<forall>i \<in> set idxs. i < length isls"
  shows "(\<forall>j < length isls. set (isls ! j) \<subseteq> set (migrate_loop idxs isls ! j))
       \<and> set (concat (migrate_loop idxs isls)) \<subseteq> set (concat isls)"
  using assms
proof (induction idxs arbitrary: isls)
  case Nil
  show ?case by simp
next
  case (Cons i idxs)
  let ?next = "(i + 1) mod length isls"
  let ?sent = "if isls ! i \<noteq> [] then isls[?next := isls ! ?next @ [hd (isls ! i)]] else isls"
  have i: "i < length isls"
    using Cons.prems by simp
  then have next_island: "?next < length isls"
    by (intro mod_less_divisor) auto
  have len: "length ?sent = length isls"
    by simp
  have grows: "set (isls ! j) \<subseteq> set (?sent ! j)" if "j < length isls" for j
    using that by (cases "j = ?next") auto
  have "set (concat ?sent) \<subseteq> set (concat isls)"
  proof (cases "isls ! i = []")
    case True
    then show ?thesis by simp
  next
    case False
    then have "hd (isls ! i) \<in> set (isls ! i)"
      by simp
    then have sent: "hd (isls ! i) \<in> set (concat isls)"
      using nth_subset_concat [OF i] by blast
    have "set (isls ! ?next) \<subseteq> set (concat isls)"
      using next_island by (rule nth_subset_concat)
    let ?upd = "isls[?next := isls ! ?next @ [hd (isls ! i)]]"
    have "set ?upd \<subseteq> insert (isls ! ?next @ [hd (isls ! i)]) (set isls)"
      by (rule set_update_subset_insert)
    then have "set (concat ?upd) \<subseteq> set (isls ! ?next @ [hd (isls ! i)]) \<union> set (concat isls)"
      unfolding set_concat by blast
    with sent \<open>set (isls ! ?next) \<subseteq> set (concat isls)\<close>
    have "set (concat ?upd) \<subseteq> set (concat isls)"
      by auto
    with False show ?thesis
      by (simp only: if_True not_False_eq_True)
  qed
  then have shrinks: "set (concat ?sent) \<subseteq> set (concat isls)" .
  have "\<forall>i \<in> set idxs. i < length ?sent"
    using Cons.prems by simp
  from Cons.IH [OF this]
  have IH1: "\<forall>j < length ?sent. set (?sent ! j) \<subseteq> set (migrate_loop idxs ?sent ! j)"
    and IH2: "set (concat (migrate_loop idxs ?sent)) \<subseteq> set (concat ?sent)"
    by blast+
  have unfold: "migrate_loop (i # idxs) isls = migrate_loop idxs ?sent"
    by (simp add: Let_def)
  show ?case
    unfolding unfold
  proof (intro conjI allI impI)
    fix j assume j: "j < length isls"
    then have "j < length ?sent"
      by (simp only: len)
    with IH1 have "set (?sent ! j) \<subseteq> set (migrate_loop idxs ?sent ! j)"
      by blast
    with grows [OF j] show "set (isls ! j) \<subseteq> set (migrate_loop idxs ?sent ! j)"
      by (rule order_trans)
  next
    from IH2 shrinks show "set (concat (migrate_loop idxs ?sent)) \<subseteq> set (concat isls)"
      by (rule order_trans)
  qed
qed

lemma migrate_grows:
  "j < length isls \<Longrightarrow> set (isls ! j) \<subseteq> set (migrate isls ! j)"
  "set (concat (migrate isls)) \<subseteq> set (concat isls)"
  using migrate_loop_grows [of "[0..<length isls]" isls] by (simp_all add: migrate_def)

lemma migrate_keeps: "c \<in> set (concat isls) \<Longrightarrow> c \<in> set (concat (migrate isls))"
proof -
  assume "c \<in> set (concat isls)"
  then obtain j where "j < length isls" "c \<in> set (isls ! j)"
    by (rule concat_member_nth)
  with migrate_grows(1) [of j isls] have "c \<in> set (migrate isls ! j)" "j < length (migrate isls)"
    by auto
  then show ?thesis
    using nth_subset_concat by blast
qed

subsection \<open>The generation step as a whole\<close>

lemma evaluate_generation [simp]: "evaluate (self\<lparr>generation := n\<rparr>) = evaluate self"
  by (simp add: fun_eq_iff evaluate_def)

lemma evaluate_all_generation [simp]:
  "evaluate_all (self\<lparr>generation := n\<rparr>) = evaluate_all self"
  by (simp add: fun_eq_iff evaluate_all_def)

lemma reproduced_generation [simp]:
  "reproduced (self\<lparr>generation := n\<rparr>) = reproduced self"
  by (simp add: fun_eq_iff reproduced_def)

lemma best_fitness_calculate_stats [simp]:
  "best_fitness (calculate_stats self improved) = peak (islands self)"
  by (simp add: calculate_stats_def peak_def Let_def)

lemma evolve_generation_result:
  assumes "evolve_generation self g = Inr (stats, self', g')"
  shows "\<exists>new improved.
           island_loop (self\<lparr>generation := generation self + 1\<rparr>) (islands self)
             (best_candidate self) 0 g = Inr (new, best_candidate self', improved, g')
         \<and> list_all2 (reproduced self) (islands self) new
         \<and> islands self' = (if (generation self + 1) mod 5 = 0 \<and> 1 < length new
                             then migrate new else new)
         \<and> best_fitness stats = peak (islands self')"
proof -
  let ?self = "self\<lparr>generation := generation self + 1\<rparr>"
  from assms obtain r where "island_loop ?self (islands self) (best_candidate self) 0 g = Inr r"
    by (auto simp: evolve_generation_def Let_def bind_err_eq_Inr)
  then obtain new best improved g1 where
      loop: "island_loop ?self (islands self) (best_candidate self) 0 g
               = Inr (new, best, improved, g1)"
    by (cases r) auto
  have "g1 = g' \<and> best_candidate self' = best
      \<and> islands self' = (if (generation self + 1) mod 5 = 0 \<and> 1 < length new
                          then migrate new else new)
      \<and> best_fitness stats = peak (islands self')"
  proof (cases "(generation self + 1) mod 5 = 0 \<and> 1 < length new")
    case True
    with assms loop show ?thesis
      by (auto simp: evolve_generation_def Let_def)
  next
    case False
    with assms loop show ?thesis
      by (auto simp: evolve_generation_def Let_def)
  qed
  moreover from island_loop_reproduced [OF loop]
  have "list_all2 (reproduced self) (islands self) new"
    by simp
  ultimately show ?thesis
    using loop by blast
qed

lemma evolve_generation_history:
  assumes "evolve_generation self g = Inr (stats, self', g')"
  shows "history self' = history self @ [stats]" and "generation self' = generation self + 1"
    and "elitism self' = elitism self" and "population_size self' = population_size self"
    and "num_islands self' = num_islands self"
  by (subst evolve_generation_fields [OF assms], simp)+

subsection \<open>The reported best fitness\<close>

lemma peak_cases:
  obtains "\<forall>c \<in> set (concat isls). fitness c \<le> 0" and "peak isls = 0"
  | "\<exists>c \<in> set (concat isls). 0 < fitness c"
    and "peak isls = Max (fitness ` {c \<in> set (concat isls). 0 < fitness c})"
proof (cases "\<exists>c \<in> set (concat isls). 0 < fitness c")
  case True
  then have "filter (\<lambda>f. 0 < f) (map fitness (concat isls)) \<noteq> []"
    by (auto simp: filter_empty_conv)
  moreover have "set (filter (\<lambda>f. 0 < f) (map fitness (concat isls)))
      = fitness ` {c \<in> set (concat isls). 0 < fitness c}"
    by auto
  ultimately have "peak isls = Max (fitness ` {c \<in> set (concat isls). 0 < fitness c})"
    by (simp add: peak_def del: set_filter set_concat set_map)
  with True that(2) show ?thesis by blast
next
  case False
  then have "filter (\<lambda>f. 0 < f) (map fitness (concat isls)) = []"
    by (auto simp: filter_empty_conv)
  then have "peak isls = 0"
    by (simp add: peak_def)
  with False that(1) show ?thesis by force
qed

lemma peak_nonneg: "0 \<le> peak isls"
proof (cases isls rule: peak_cases)
  case 1
  then show ?thesis by simp
next
  case 2
  then obtain c where c: "c \<in> set (concat isls)" "0 < fitness c"
    by blast
  then have "fitness c \<le> Max (fitness ` {c \<in> set (concat isls). 0 < fitness c})"
    by (intro Max_ge) auto
  with c(2) have "0 \<le> Max (fitness ` {c \<in> set (concat isls). 0 < fitness c})"
    by linarith
  then show ?thesis by (simp only: 2(2))
qed

lemma peak_upper:
  assumes "c \<in> set (concat isls)"
  shows "fitness c \<le> peak isls"
proof (cases isls rule: peak_cases)
  case 1
  with assms show ?thesis by (simp del: set_concat)
next
  case 2
  show ?thesis
  proof (cases "0 < fitness c")
    case True
    with assms have "fitness c \<le> Max (fitness ` {c \<in> set (concat isls). 0 < fitness c})"
      by (intro Max_ge) auto
    then show ?thesis by (simp only: 2(2))
  next
    case False
    with peak_nonneg [of isls] show ?thesis by simp
  qed
qed

lemma peak_least:
  assumes "0 \<le> x" and "\<forall>c \<in> set (concat isls). fitness c \<le> x"
  shows "peak isls \<le> x"
proof (cases isls rule: peak_cases)
  case 1
  with assms(1) show ?thesis by simp
next
  case 2
  then have "fitness ` {c \<in> set (concat isls). 0 < fitness c} \<noteq> {}"
    by blast
  then have "Max (fitness ` {c \<in> set (concat isls). 0 < fitness c}) \<le> x"
    using assms(2) by (subst Max_le_iff) auto
  then show ?thesis by (simp only: 2(2))
qed

subsection \<open>What reproduction keeps\<close>

lemma reproduced_parts:
  assumes "reproduced self island new_island"
  obtains children where "island \<noteq> []"
    and "new_island
           = (if elitism self
              then take (max 1 (length island div 5)) (sort_by_fitness (evaluate_all self island))
              else []) @ children"
    and "\<forall>c \<in> set children. fitness c = 0"
  using assms unfolding reproduced_def by blast

lemma reproduced_leader:
  assumes "reproduced self island new_island" and "elitism self"
    and "c \<in> set island" and "fitness c \<noteq> 0"
  shows "\<exists>d \<in> set new_island. fitness c \<le> fitness d"
proof -
  let ?sorted = "sort_by_fitness (evaluate_all self island)"
  from assms(1) obtain children where "island \<noteq> []"
      and new: "new_island = (if elitism self then take (max 1 (length island div 5)) ?sorted
                              else []) @ children"
    by (rule reproduced_parts)
  then have "?sorted \<noteq> []"
    by (metis evaluate_all_length length_0_conv sort_by_fitness_length)
  then obtain leader rest where sorted: "?sorted = leader # rest"
    by (cases ?sorted) blast+
  have "c \<in> set (evaluate_all self island)"
    using assms(3,4) by (rule evaluate_all_keeps)
  then have "fitness c \<le> fitness leader"
    by (rule sort_by_fitness_leader [OF sorted])
  moreover have "take (max 1 (length island div 5)) (leader # rest)
      = leader # take (max 1 (length island div 5) - 1) rest"
    by (cases "max 1 (length island div 5)") simp_all
  then have "leader \<in> set new_island"
    unfolding new sorted using assms(2) by simp
  ultimately show ?thesis by blast
qed

lemma reproduced_unscored:
  assumes "reproduced self island new_island" and "\<not> elitism self"
  shows "\<forall>c \<in> set new_island. fitness c = 0"
proof -
  from assms(1) obtain children where
      "new_island
         = (if elitism self
            then take (max 1 (length island div 5)) (sort_by_fitness (evaluate_all self island))
            else []) @ children"
      "\<forall>c \<in> set children. fitness c = 0"
    by (rule reproduced_parts)
  with assms(2) show ?thesis by simp
qed

lemma reproduced_nonneg:
  assumes "reproduced self island new_island" and "\<forall>c \<in> set island. 0 \<le> fitness c"
  shows "\<forall>c \<in> set new_island. 0 \<le> fitness c"
proof -
  let ?sorted = "sort_by_fitness (evaluate_all self island)"
  from assms(1) obtain children where
      new: "new_island = (if elitism self then take (max 1 (length island div 5)) ?sorted
                          else []) @ children"
      and children: "\<forall>c \<in> set children. fitness c = 0"
    by (rule reproduced_parts)
  have "\<forall>c \<in> set ?sorted. 0 \<le> fitness c"
    using evaluate_all_positive [OF assms(2), of self] by (simp add: less_imp_le)
  then have "\<forall>c \<in> set (take (max 1 (length island div 5)) ?sorted). 0 \<le> fitness c"
    by (meson in_set_takeD)
  with children show ?thesis
    unfolding new by (cases "elitism self") auto
qed

lemma list_all2_concat_member:
  assumes "list_all2 P xss yss" and "c \<in> set (concat xss)"
  obtains xs ys where "P xs ys" and "c \<in> set xs" and "set ys \<subseteq> set (concat yss)"
proof -
  from assms(2) obtain j where j: "j < length xss" "c \<in> set (xss ! j)"
    by (rule concat_member_nth)
  with assms(1) have "P (xss ! j) (yss ! j)" and "j < length yss"
    by (simp_all add: list_all2_conv_all_nth)
  with j that nth_subset_concat [of j yss] show ?thesis
    by blast
qed

lemma list_all2_concat_member':
  assumes "list_all2 P xss yss" and "c \<in> set (concat yss)"
  obtains xs ys where "P xs ys" and "c \<in> set ys" and "set xs \<subseteq> set (concat xss)"
proof -
  from assms(2) obtain j where j: "j < length yss" "c \<in> set (yss ! j)"
    by (rule concat_member_nth)
  with assms(1) have "P (xss ! j) (yss ! j)" and "j < length xss"
    by (simp_all add: list_all2_conv_all_nth)
  with j that nth_subset_concat [of j xss] show ?thesis
    by blast
qed

lemma evolve_generation_members:
  assumes "evolve_generation self g = Inr (stats, self', g')"
  obtains new where "list_all2 (reproduced self) (islands self) new"
    and "set (concat (islands self')) = set (concat new)"
proof -
  from evolve_generation_result [OF assms] obtain new where
      new: "list_all2 (reproduced self) (islands self) new"
      and isls: "islands self' = (if (generation self + 1) mod 5 = 0 \<and> 1 < length new
                                  then migrate new else new)"
    by blast
  have "set (concat (migrate new)) = set (concat new)"
    using migrate_grows(2) [of new] migrate_keeps [of _ new] by blast
  with isls have "set (concat (islands self')) = set (concat new)"
    by (simp del: set_concat)
  with new that show ?thesis by blast
qed

lemma evolve_generation_peak:
  assumes "evolve_generation self g = Inr (stats, self', g')"
    and "elitism self \<or> (\<forall>c \<in> set (concat (islands self)). fitness c = 0)"
  shows "peak (islands self) \<le> peak (islands self')"
proof (rule peak_least [OF peak_nonneg], rule ballI)
  fix c assume c: "c \<in> set (concat (islands self))"
  from evolve_generation_members [OF assms(1)] obtain new where
      new: "list_all2 (reproduced self) (islands self) new"
      and members: "set (concat (islands self')) = set (concat new)"
    by blast
  show "fitness c \<le> peak (islands self')"
  proof (cases "0 < fitness c")
    case False
    with peak_nonneg [of "islands self'"] show ?thesis by simp
  next
    case True
    with assms(2) c have elit: "elitism self"
      by force
    from new c obtain island new_island where
        "reproduced self island new_island" "c \<in> set island"
        "set new_island \<subseteq> set (concat new)"
      by (rule list_all2_concat_member)
    moreover from True have "fitness c \<noteq> 0"
      by simp
    ultimately obtain d where "d \<in> set (concat new)" "fitness c \<le> fitness d"
      using reproduced_leader [OF _ elit, of island new_island c] by blast
    with members peak_upper [of d "islands self'"] show ?thesis
      by fastforce
  qed
qed

lemma evolve_generation_unscored:
  assumes "evolve_generation self g = Inr (stats, self', g')" and "\<not> elitism self"
  shows "\<forall>c \<in> set (concat (islands self')). fitness c = 0"
proof
  fix c assume c: "c \<in> set (concat (islands self'))"
  from evolve_generation_members [OF assms(1)] obtain new where
      new: "list_all2 (reproduced self) (islands self) new"
      and members: "set (concat (islands self')) = set (concat new)"
    by blast
  from c members have "c \<in> set (concat new)"
    by blast
  with new obtain island new_island where
      "reproduced self island new_island" "c \<in> set new_island"
    by (rule list_all2_concat_member')
  with reproduced_unscored assms(2) show "fitness c = 0"
    by blast
qed

lemma evolve_generation_nonneg:
  assumes "evolve_generation self g = Inr (stats, self', g')"
    and "\<forall>c \<in> set (concat (islands self)). 0 \<le> fitness c"
  shows "\<forall>c \<in> set (concat (islands self')). 0 \<le> fitness c"
proof
  fix c assume c: "c \<in> set (concat (islands self'))"
  from evolve_generation_members [OF assms(1)] obtain new where
      new: "list_all2 (reproduced self) (islands self) new"
      and members: "set (concat (islands self')) = set (concat new)"
    by blast
  from c members have "c \<in> set (concat new)"
    by blast
  with new obtain island new_island where
      "reproduced self island new_island" "c \<in> set new_island"
      "set island \<subseteq> set (concat (islands self))"
    by (rule list_all2_concat_member')
  with reproduced_nonneg [OF this(1)] assms(2) show "0 \<le> fitness c"
    by blast
qed

section \<open>Runs\<close>

subsection \<open>A fresh evolver\<close>

lemma initial_loop_unscored:
  assumes "initial_loop self idxs population g = Inr (result, g')"
    and "\<forall>c \<in> set population. fitness c = 0"
  shows "\<forall>c \<in> set result. fitness c = 0"
  using assms
proof (induction idxs arbitrary: population g)
  case Nil
  then show ?case by simp
next
  case (Cons i idxs)
  from Cons.prems(1) obtain t g1 where
      "initial_loop self idxs
         (population @ [Candidate (''gen0_island'' @ str_nat (length population) @ ''_'' @ str_nat i)
                          t 0 None None]) g1 = Inr (result, g')"
    by (auto simp: bind_err_eq_Inr)
  moreover have "\<forall>c \<in> set (population
      @ [Candidate (''gen0_island'' @ str_nat (length population) @ ''_'' @ str_nat i) t 0 None None]).
      fitness c = 0"
    using Cons.prems(2) by (simp add: Candidate_def)
  ultimately show ?case
    by (rule Cons.IH)
qed

lemma build_islands_unscored:
  "build_islands self n g = Inr (isls, g') \<Longrightarrow> \<forall>c \<in> set (concat isls). fitness c = 0"
proof (induction n arbitrary: g isls)
  case 0
  then show ?case by simp
next
  case (Suc n)
  then obtain island g1 rest where
      first: "create_initial_population self g = Inr (island, g1)"
      and more: "build_islands self n g1 = Inr (rest, g')"
      and isls: "isls = island # rest"
    by (auto simp: bind_err_eq_Inr)
  from first have "\<forall>c \<in> set island. fitness c = 0"
    by (auto simp: create_initial_population_def split: if_splits
          dest!: initial_loop_unscored)
  with Suc.IH [OF more] isls show ?case
    by auto
qed

lemma init_unscored:
  assumes "init sd criteria psize nislands mmodel emodel elit crate mrate g = Inr (ev, g')"
  shows "\<forall>c \<in> set (concat (islands ev)). fitness c = 0"
  using assms by (auto simp: init_def bind_err_eq_Inr dest!: build_islands_unscored)

lemma init_fields:
  assumes "init sd criteria psize nislands mmodel emodel elit crate mrate g = Inr (ev, g')"
  shows "history ev = []" and "generation ev = 0" and "best_candidate ev = None"
    and "population_size ev = psize" and "num_islands ev = nislands" and "elitism ev = elit"
    and "map length (islands ev) = replicate (nat nislands) (nat (psize div nislands))"
  using assms init_result [of sd criteria psize nislands mmodel emodel elit crate mrate g]
  by auto

subsection \<open>The history of a run\<close>

lemma evolve_generations_history:
  assumes "evolve_generations n self g = Inr (self', g')"
    and "sorted (map best_fitness (history self))"
    and "\<forall>h \<in> set (history self). best_fitness h \<le> peak (islands self)"
    and "elitism self \<or> (\<forall>c \<in> set (concat (islands self)). fitness c = 0)"
  shows "length (history self') = length (history self) + n
       \<and> generation self' = generation self + int n
       \<and> sorted (map best_fitness (history self'))"
  using assms
proof (induction n arbitrary: self g)
  case 0
  then show ?case by simp
next
  case (Suc n)
  from Suc.prems(1) obtain stats mid g1 where
      step: "evolve_generation self g = Inr (stats, mid, g1)"
      and rest: "evolve_generations n mid g1 = Inr (self', g')"
    by (auto simp: bind_err_eq_Inr)
  note fields = evolve_generation_history [OF step]
  from evolve_generation_result [OF step] have stats: "best_fitness stats = peak (islands mid)"
    by blast
  have rises: "peak (islands self) \<le> peak (islands mid)"
    using step Suc.prems(4) by (rule evolve_generation_peak)
  have "sorted (map best_fitness (history mid))"
    using Suc.prems(2,3) rises by (auto simp: fields(1) stats sorted_append)
  moreover have "\<forall>h \<in> set (history mid). best_fitness h \<le> peak (islands mid)"
    using Suc.prems(3) rises by (auto simp: fields(1) stats)
  moreover have "elitism mid \<or> (\<forall>c \<in> set (concat (islands mid)). fitness c = 0)"
    using evolve_generation_unscored [OF step] fields(3) by blast
  ultimately have "length (history self') = length (history mid) + n
       \<and> generation self' = generation mid + int n
       \<and> sorted (map best_fitness (history self'))"
    by (rule Suc.IH [OF rest])
  then show ?case
    by (simp add: fields(1,2))
qed

lemma generation_loop_evolver:
  "generation_loop n dir task_id ev g fs = Inr (ev', g', fs') \<Longrightarrow>
   evolve_generations n ev g = Inr (ev', g')"
proof (induction n arbitrary: ev g fs)
  case 0
  then show ?case by simp
next
  case (Suc n)
  then show ?case
    by (auto simp: bind_err_eq_Inr)
qed

lemma create_and_run_evolver:
  assumes "create_and_run config g fs = Inr (ev, g', fs')"
  obtains ev0 g0 where
    "init (cfg_seed config) (cfg_evaluation_criteria config) (cfg_population_size config)
       (cfg_num_islands config) (cfg_mutation_model config) (cfg_evaluation_model config)
       (cfg_elitism config) (cfg_crossover_rate config) (cfg_mutation_rate config) g
     = Inr (ev0, g0)"
    and "evolve_generations (nat (cfg_max_generations config)) ev0 g0 = Inr (ev, g')"
  using assms
  by (auto simp: create_and_run_def bind_err_eq_Inr dest!: generation_loop_evolver)

subsection \<open>Runs that complete\<close>

lemma crossover_ok: "\<exists>r. crossover self parent1 parent2 g = Inr r"
  by (simp add: crossover_def Let_def randint_ok)

lemma mutate_ok: "\<exists>r. mutate self parent g = Inr r"
proof -
  obtain t g2 where "mutate_text (content parent) (stl g) = Inr (t, g2)"
    using mutate_text_ok [of "content parent" "stl g"] by auto
  then show ?thesis
    by (simp add: mutate_def randint_ok)
qed

lemma make_child_ok:
  assumes "4 \<le> length island"
  shows "\<exists>r. make_child self island g = Inr r"
proof (cases "fst (random_random g) < crossover_rate self \<and> 2 \<le> length island")
  case True
  let ?half = "take (length island div 2) island"
  let ?g1 = "snd (random_random g)"
  have "2 \<le> length ?half"
    using assms by simp
  moreover obtain p0 p1 g2 where "sample_from ?half 2 ?g1 = ([p0, p1], g2)"
    using sample_from_two [of ?half ?g1] by auto
  ultimately have "sample ?half 2 ?g1 = Inr ([p0, p1], g2)"
    by (simp add: sample_def)
  with True crossover_ok [of self p0 p1 g2] show ?thesis
    by (auto simp: make_child_def split: prod.splits)
next
  case False
  let ?half = "take (length island div 2) island"
  have "?half \<noteq> []"
    using assms by auto
  then obtain parent where "choice ?half (snd (random_random g)) = Inr (parent, stl (snd (random_random g)))"
    by (simp add: choice_def)
  with False mutate_ok [of self parent "stl (snd (random_random g))"] show ?thesis
    by (auto simp: make_child_def split: prod.splits)
qed

lemma fill_offspring_ok:
  assumes "num_islands self \<noteq> 0" and "4 \<le> length island"
  shows "\<exists>r. fill_offspring self island new_island g = Inr r"
  using assms
proof (induction self island new_island g rule: fill_offspring.induct)
  case (1 self island new_island g)
  show ?case
  proof (cases "int (length new_island) < population_size self div num_islands self")
    case False
    with "1.prems" show ?thesis
      by (subst fill_offspring.simps) simp
  next
    case True
    obtain child g1 where child: "make_child self island g = Inr (child, g1)"
      using make_child_ok [OF "1.prems"(2), of self g] by auto
    from "1.IH" [OF "1.prems"(1) True "1.prems"] obtain r where
        "fill_offspring self island (new_island @ [child]) g1 = Inr r"
      by blast
    with True "1.prems"(1) child show ?thesis
      by (subst fill_offspring.simps) simp
  qed
qed

lemma process_island_ok:
  assumes "num_islands self \<noteq> 0" and "4 \<le> length island"
  shows "\<exists>r. process_island self island best improved g = Inr r"
proof -
  let ?sorted = "sort_by_fitness (evaluate_all self island)"
  have len: "4 \<le> length ?sorted"
    using assms(2) by simp
  then obtain leader rest where sorted: "?sorted = leader # rest"
    by (cases ?sorted) auto
  obtain r where "fill_offspring self ?sorted
      (if elitism self then take (max 1 (length ?sorted div 5)) ?sorted else []) g = Inr r"
    using fill_offspring_ok [OF assms(1) len] by blast
  then show ?thesis
    unfolding process_island_def Let_def sorted [symmetric]
    by (cases r) (simp add: sorted split: prod.splits)
qed

lemma island_loop_ok:
  assumes "num_islands self \<noteq> 0" and "\<forall>island \<in> set isls. 4 \<le> length island"
  shows "\<exists>r. island_loop self isls best improved g = Inr r"
  using assms(2)
proof (induction isls arbitrary: best improved g)
  case Nil
  show ?case by simp
next
  case (Cons island isls)
  then obtain new_island b1 i1 g1 where
      "process_island self island best improved g = Inr (new_island, b1, i1, g1)"
    using process_island_ok [OF assms(1), of island best improved g] by auto
  moreover have "\<exists>r. island_loop self isls b1 i1 g1 = Inr r"
    by (rule Cons.IH) (use Cons.prems in simp)
  then obtain r where "island_loop self isls b1 i1 g1 = Inr r"
    by blast
  ultimately show ?case
    by (cases r) auto
qed

lemma evolve_generation_ok:
  assumes "num_islands self \<noteq> 0" and "\<forall>island \<in> set (islands self). 4 \<le> length island"
  shows "\<exists>r. evolve_generation self g = Inr r"
proof -
  have "\<exists>r. island_loop (self\<lparr>generation := generation self + 1\<rparr>) (islands self)
      (best_candidate self) 0 g = Inr r"
    by (rule island_loop_ok) (use assms in simp_all)
  then obtain r where "island_loop (self\<lparr>generation := generation self + 1\<rparr>) (islands self)
      (best_candidate self) 0 g = Inr r"
    by blast
  then show ?thesis
    by (cases r) (simp add: evolve_generation_def Let_def)
qed


lemma reproduced_length:
  assumes "reproduced self island new_island"
  shows "int (length new_island)
           = max (if elitism self then int (min (length island) (max 1 (length island div 5)))
                  else 0)
                 (population_size self div num_islands self)"
  using assms unfolding reproduced_def by blast

lemma migrate_loop_longer:
  "\<forall>j < length isls. length (isls ! j) \<le> length (migrate_loop idxs isls ! j)"
proof (induction idxs arbitrary: isls)
  case Nil
  show ?case by simp
next
  case (Cons i idxs)
  let ?next = "(i + 1) mod length isls"
  let ?sent = "if isls ! i \<noteq> [] then isls[?next := isls ! ?next @ [hd (isls ! i)]] else isls"
  have unfold: "migrate_loop (i # idxs) isls = migrate_loop idxs ?sent"
    by (simp add: Let_def)
  have len: "length ?sent = length isls"
    by simp
  show ?case
    unfolding unfold
  proof (intro allI impI)
    fix j assume j: "j < length isls"
    have "length (isls ! j) \<le> length (?sent ! j)"
      using j by (cases "j = ?next") auto
    also have "\<dots> \<le> length (migrate_loop idxs ?sent ! j)"
      using Cons.IH [of ?sent] j len by metis
    finally show "length (isls ! j) \<le> length (migrate_loop idxs ?sent ! j)" .
  qed
qed

lemma migrate_longer:
  assumes "\<forall>island \<in> set isls. k \<le> int (length island)"
  shows "\<forall>island \<in> set (migrate isls). k \<le> int (length island)"
proof
  fix island assume "island \<in> set (migrate isls)"
  then obtain j where j: "j < length isls" "island = migrate isls ! j"
    by (auto simp: in_set_conv_nth)
  then have "length (isls ! j) \<le> length island"
    using migrate_loop_longer [of isls "[0..<length isls]"] by (simp add: migrate_def)
  moreover have "k \<le> int (length (isls ! j))"
    using assms j(1) by simp
  ultimately show "k \<le> int (length island)"
    by linarith
qed

lemma evolve_generation_large:
  assumes "evolve_generation self g = Inr (stats, self', g')"
  shows "\<forall>island \<in> set (islands self').
           population_size self div num_islands self \<le> int (length island)"
proof -
  let ?k = "population_size self div num_islands self"
  from evolve_generation_result [OF assms] obtain new where
      new: "list_all2 (reproduced self) (islands self) new"
      and isls: "islands self' = (if (generation self + 1) mod 5 = 0 \<and> 1 < length new
                                  then migrate new else new)"
    by blast
  have large: "\<forall>island \<in> set new. ?k \<le> int (length island)"
  proof
    fix island assume "island \<in> set new"
    then obtain j where "j < length new" "island = new ! j"
      by (auto simp: in_set_conv_nth)
    with new have "reproduced self (islands self ! j) island"
      by (simp add: list_all2_conv_all_nth)
    from reproduced_length [OF this] show "?k \<le> int (length island)"
      by linarith
  qed
  show ?thesis
    unfolding isls using large migrate_longer [OF large] by simp
qed

lemma evolve_generations_ok:
  assumes "num_islands self \<noteq> 0" and "4 \<le> population_size self div num_islands self"
    and "\<forall>island \<in> set (islands self).
           population_size self div num_islands self \<le> int (length island)"
  shows "\<exists>r. evolve_generations n self g = Inr r"
  using assms
proof (induction n arbitrary: self g)
  case 0
  show ?case by simp
next
  case (Suc n)
  have "\<forall>island \<in> set (islands self). 4 \<le> length island"
    using Suc.prems(2,3) by fastforce
  with Suc.prems(1) have "\<exists>r. evolve_generation self g = Inr r"
    by (rule evolve_generation_ok)
  then obtain stats mid g1 where step: "evolve_generation self g = Inr (stats, mid, g1)"
    by (metis prod.exhaust)
  note fields = evolve_generation_history [OF step]
  have "\<exists>r. evolve_generations n mid g1 = Inr r"
    by (rule Suc.IH) (use Suc.prems evolve_generation_large [OF step] fields in simp_all)
  with step show ?case
    by simp
qed

lemma generation_loop_ok:
  "evolve_generations n ev g = Inr (ev', g') \<Longrightarrow>
   \<exists>fs'. generation_loop n dir task_id ev g fs = Inr (ev', g', fs')"
proof (induction n arbitrary: ev g fs)
  case 0
  then show ?case by simp
next
  case (Suc n)
  then obtain stats mid g1 where step: "evolve_generation ev g = Inr (stats, mid, g1)"
      and rest: "evolve_generations n mid g1 = Inr (ev', g')"
    by (auto simp: bind_err_eq_Inr)
  from Suc.IH [OF rest] step show ?case
    by simp
qed

lemma create_and_run_ok:
  assumes "1 \<le> cfg_num_islands config"
    and "4 \<le> cfg_population_size config div cfg_num_islands config"
  shows "\<exists>ev g' fs'. create_and_run config g fs = Inr (ev, g', fs')"
proof -
  obtain ev0 g0 where built:
      "init (cfg_seed config) (cfg_evaluation_criteria config) (cfg_population_size config)
         (cfg_num_islands config) (cfg_mutation_model config) (cfg_evaluation_model config)
         (cfg_elitism config) (cfg_crossover_rate config) (cfg_mutation_rate config) g
       = Inr (ev0, g0)"
    using init_result by blast
  note fresh = init_fields [OF built]
  have "\<forall>island \<in> set (islands ev0).
      population_size ev0 div num_islands ev0 \<le> int (length island)"
  proof
    fix island assume "island \<in> set (islands ev0)"
    then have "length island \<in> set (map length (islands ev0))"
      by simp
    then have "length island = nat (cfg_population_size config div cfg_num_islands config)"
      unfolding fresh(7) by simp
    then show "population_size ev0 div num_islands ev0 \<le> int (length island)"
      using assms(2) by (simp add: fresh)
  qed
  then have "\<exists>r. evolve_generations (nat (cfg_max_generations config)) ev0 g0 = Inr r"
    by (intro evolve_generations_ok) (use assms fresh in simp_all)
  then obtain ev g' where "evolve_generations (nat (cfg_max_generations config)) ev0 g0 = Inr (ev, g')"
    by (metis prod.exhaust)
  from generation_loop_ok [OF this] built show ?thesis
    by (simp add: create_and_run_def) blast
qed

subsection \<open>Two runs that draw no random number\<close>

lemmas ring_eval = ring_start_def ring_at_def ring_final_def ring_elite_def ring_stats_def
  single_start_def single_at_def default_evolver_def

lemma ring_init:
  "init ''x'' [] 2 2 default_model default_model True (3 / 5) (2 / 5) g = Inr (ring_start, g)"
  by (simp add: ring_eval init_eval string_eval)

lemma ring_first: "evolve_generation ring_start g
    = Inr (ring_stats 1 (1 / 2) 2 1, ring_at 1 [ring_stats 1 (1 / 2) 2 1], g)"
  by (simp add: ring_eval step_eval string_eval)

lemma ring_next:
  assumes "(n + 1) mod 5 \<noteq> 0"
  shows "evolve_generation (ring_at n h) g
    = Inr (ring_stats (n + 1) (1 / 2) 2 0, ring_at (n + 1) (h @ [ring_stats (n + 1) (1 / 2) 2 0]), g)"
  using assms by (simp add: ring_eval step_eval string_eval)

lemma ring_fifth:
  "evolve_generation (ring_at 4 h) g
    = Inr (ring_stats 5 (1 / 4) 4 0,
           (ring_at 5 (h @ [ring_stats 5 (1 / 4) 4 0]))
             \<lparr>islands := [[ring_elite, ring_elite], [ring_elite, ring_elite]]\<rparr>, g)"
  by (simp add: ring_eval step_eval string_eval)

lemma ring_run: "evolve_generations 5 ring_start g = Inr (ring_final, g)"
  by (simp add: ring_first ring_next ring_fifth) (simp add: ring_at_def ring_final_def)

lemma single_init:
  "init ''x'' [] 1 1 default_model default_model True (3 / 5) (2 / 5) g = Inr (single_start, g)"
  by (simp add: ring_eval init_eval string_eval)

lemma single_first: "evolve_generation single_start g
    = Inr (ring_stats 1 1 1 1, single_at 1 [ring_stats 1 1 1 1], g)"
  by (simp add: ring_eval step_eval string_eval)

lemma single_next:
  "evolve_generation (single_at n h) g
    = Inr (ring_stats (n + 1) 1 1 0, single_at (n + 1) (h @ [ring_stats (n + 1) 1 1 0]), g)"
  by (simp add: ring_eval step_eval string_eval)

lemma single_run:
  "evolve_generations 5 single_start g
     = Inr (single_at 5 [ring_stats 1 1 1 1, ring_stats 2 1 1 0, ring_stats 3 1 1 0,
                         ring_stats 4 1 1 0, ring_stats 5 1 1 0], g)"
  by (simp add: single_first single_next)

subsection \<open>Scenario A on the draws that are all zero\<close>

lemma scenario_A_init:
  "init ''hello world'' ''hello'' 4 2 default_model default_model True (3 / 5) (2 / 5) (sconst 0)
     = Inr (default_evolver\<lparr>seed := ''hello world'', evaluation_criteria := ''hello'',
              population_size := 4,
              islands := [[Candidate ''gen0_island0_0'' ''hello world'' 0 None None,
                           Candidate ''gen0_island1_1'' ''hello world'' 0 None None],
                          [Candidate ''gen0_island0_0'' ''hello world'' 0 None None,
                           Candidate ''gen0_island1_1'' ''hello world'' 0 None None]]\<rparr>,
            sconst 0)"
  by (simp add: default_evolver_def init_eval string_eval random_eval)

lemma scenario_A_step:
  "evolve_generation
     (default_evolver\<lparr>seed := ''hello world'', evaluation_criteria := ''hello'',
        population_size := 4,
        islands := [[Candidate ''gen0_island0_0'' ''hello world'' 0 None None,
                     Candidate ''gen0_island1_1'' ''hello world'' 0 None None],
                    [Candidate ''gen0_island0_0'' ''hello world'' 0 None None,
                     Candidate ''gen0_island1_1'' ''hello world'' 0 None None]]\<rparr>)
     (sconst 0) = Inl ValueError"
  by (simp add: default_evolver_def step_eval string_eval random_eval)


subsection \<open>The best candidate of a run\<close>

lemma scored_generation [simp]: "scored (self\<lparr>generation := n\<rparr>) = scored self"
  by (simp add: scored_def)

lemma evolve_generation_record:
  assumes "evolve_generation self g = Inr (stats, self', g')"
  shows "record_fitness (best_candidate self) \<le> record_fitness (best_candidate self')"
    and "\<forall>c \<in> set (scored self). fitness c \<le> record_fitness (best_candidate self')"
    and "best_candidate self' = best_candidate self
         \<or> (\<exists>b \<in> set (scored self). best_candidate self' = Some b)"
    and "(\<forall>c \<in> set (concat (islands self)). 0 \<le> fitness c) \<and> islands self \<noteq> []
           \<or> best_candidate self \<noteq> None \<Longrightarrow> best_candidate self' \<noteq> None"
proof -
  from evolve_generation_result [OF assms] obtain new improved where
      "island_loop (self\<lparr>generation := generation self + 1\<rparr>) (islands self)
         (best_candidate self) 0 g = Inr (new, best_candidate self', improved, g')"
    by blast
  note facts = island_loop_record [OF this, unfolded evaluate_all_generation, folded scored_def]
  show "record_fitness (best_candidate self) \<le> record_fitness (best_candidate self')"
    using facts by blast
  show "\<forall>c \<in> set (scored self). fitness c \<le> record_fitness (best_candidate self')"
    using facts by blast
  show "best_candidate self' = best_candidate self
         \<or> (\<exists>b \<in> set (scored self). best_candidate self' = Some b)"
    using facts by blast
  show "best_candidate self' \<noteq> None"
    if "(\<forall>c \<in> set (concat (islands self)). 0 \<le> fitness c) \<and> islands self \<noteq> []
           \<or> best_candidate self \<noteq> None"
    using facts that by blast
qed

lemma evolve_generations_add:
  "evolve_generations (m + n) self g =
     bind_err (evolve_generations m self g) (\<lambda>(mid, g'). evolve_generations n mid g')"
proof (induction m arbitrary: self g)
  case 0
  show ?case by simp
next
  case (Suc m)
  show ?case
    by (cases "evolve_generation self g") (auto simp: Suc)
qed

lemma evolve_generations_nonneg:
  assumes "evolve_generations n self g = Inr (self', g')"
    and "\<forall>c \<in> set (concat (islands self)). 0 \<le> fitness c"
  shows "\<forall>c \<in> set (concat (islands self')). 0 \<le> fitness c"
  using assms
proof (induction n arbitrary: self g)
  case 0
  then show ?case by simp
next
  case (Suc n)
  from Suc.prems(1) obtain stats mid g1 where
      step: "evolve_generation self g = Inr (stats, mid, g1)"
      and rest: "evolve_generations n mid g1 = Inr (self', g')"
    by (auto simp: bind_err_eq_Inr)
  from evolve_generation_nonneg [OF step Suc.prems(2)] show ?case
    by (rule Suc.IH [OF rest])
qed

lemma scored_empty: "scored self = [] \<longleftrightarrow> concat (islands self) = []"
  by (simp add: scored_def evaluate_all_def)

lemma evolve_generations_record:
  assumes "evolve_generations n self g = Inr (self', g')"
    and "\<forall>c \<in> set (concat (islands self)). 0 \<le> fitness c"
  shows "record_fitness (best_candidate self) \<le> record_fitness (best_candidate self')
       \<and> (\<forall>c \<in> set (observed n self g). fitness c \<le> record_fitness (best_candidate self'))
       \<and> (best_candidate self' = best_candidate self
            \<or> (\<exists>b \<in> set (observed n self g). best_candidate self' = Some b))
       \<and> (observed n self g \<noteq> [] \<or> best_candidate self \<noteq> None
            \<longrightarrow> best_candidate self' \<noteq> None)"
  using assms
proof (induction n arbitrary: self g)
  case 0
  then show ?case by simp
next
  case (Suc n)
  from Suc.prems(1) obtain stats mid g1 where
      step: "evolve_generation self g = Inr (stats, mid, g1)"
      and rest: "evolve_generations n mid g1 = Inr (self', g')"
    by (auto simp: bind_err_eq_Inr)
  note one = evolve_generation_record [OF step]
  have "\<forall>c \<in> set (concat (islands mid)). 0 \<le> fitness c"
    using step Suc.prems(2) by (rule evolve_generation_nonneg)
  note more = Suc.IH [OF rest this]
  have seen: "observed (Suc n) self g = scored self @ observed n mid g1"
    by (simp add: step)
  have "record_fitness (best_candidate self) \<le> record_fitness (best_candidate self')"
    using one(1) more by linarith
  moreover have "\<forall>c \<in> set (observed (Suc n) self g).
      fitness c \<le> record_fitness (best_candidate self')"
    unfolding seen using one(2) more by fastforce
  moreover have "best_candidate self' = best_candidate self
      \<or> (\<exists>b \<in> set (observed (Suc n) self g). best_candidate self' = Some b)"
    unfolding seen using one(3) more by auto
  moreover have "best_candidate self' \<noteq> None"
    if "observed (Suc n) self g \<noteq> [] \<or> best_candidate self \<noteq> None"
  proof (cases "scored self = [] \<and> best_candidate self = None")
    case True
    with that seen have "observed n mid g1 \<noteq> []"
      by simp
    with more show ?thesis by blast
  next
    case False
    then have "concat (islands self) \<noteq> [] \<or> best_candidate self \<noteq> None"
      by (auto simp: scored_empty)
    then have "islands self \<noteq> [] \<or> best_candidate self \<noteq> None"
      by auto
    with one(4) Suc.prems(2) have "best_candidate mid \<noteq> None"
      by blast
    with more show ?thesis by blast
  qed
  ultimately show ?case by blast
qed

subsection \<open>Island sizes\<close>

lemma reproduced_nominal:
  assumes "reproduced self island new_island"
    and "1 \<le> population_size self div num_islands self"
    and "int (length island) \<le> population_size self div num_islands self + 1"
  shows "int (length new_island) = population_size self div num_islands self"
proof -
  let ?k = "population_size self div num_islands self"
  have "length island div 5 \<le> length island - 1"
    by (cases "length island = 0") simp_all
  then have "int (max 1 (length island div 5)) \<le> ?k"
    using assms(2,3) by linarith
  then have "int (min (length island) (max 1 (length island div 5))) \<le> ?k"
    by linarith
  with reproduced_length [OF assms(1)] assms(2) show ?thesis
    by (cases "elitism self") simp_all
qed

lemma evolve_generation_sizes:
  assumes "evolve_generation self g = Inr (stats, self', g')"
    and "1 \<le> population_size self div num_islands self"
    and "\<forall>island \<in> set (islands self).
           int (length island) \<le> population_size self div num_islands self + 1"
  shows "\<exists>before. list_all2 (reproduced self) (islands self) before
           \<and> length before = length (islands self)
           \<and> (\<forall>island \<in> set before.
                 int (length island) = population_size self div num_islands self)
           \<and> islands self' = (if (generation self + 1) mod 5 = 0 \<and> 1 < length before
                               then migrate before else before)"
proof -
  from evolve_generation_result [OF assms(1)] obtain before where
      before: "list_all2 (reproduced self) (islands self) before"
      and isls: "islands self' = (if (generation self + 1) mod 5 = 0 \<and> 1 < length before
                                  then migrate before else before)"
    by blast
  have "\<forall>island \<in> set before. int (length island) = population_size self div num_islands self"
  proof
    fix island assume "island \<in> set before"
    then obtain j where j: "j < length before" "island = before ! j"
      by (auto simp: in_set_conv_nth)
    with before have "reproduced self (islands self ! j) island" "j < length (islands self)"
      by (simp_all add: list_all2_conv_all_nth)
    moreover from this(2) assms(3)
    have "int (length (islands self ! j)) \<le> population_size self div num_islands self + 1"
      using nth_mem by blast
    ultimately show "int (length island) = population_size self div num_islands self"
      using assms(2) by (intro reproduced_nominal)
  qed
  moreover have "length before = length (islands self)"
    using before by (simp add: list_all2_lengthD)
  ultimately show ?thesis
    using before isls by blast
qed

lemma migrate_sizes:
  assumes "\<forall>island \<in> set before. int (length island) = k" and "1 \<le> k"
  shows "\<forall>island \<in> set (migrate before). int (length island) = k + 1"
proof
  fix island assume "island \<in> set (migrate before)"
  then obtain j where j: "j < length before" "island = migrate before ! j"
    by (auto simp: in_set_conv_nth)
  have nonempty: "\<forall>island \<in> set before. island \<noteq> []"
    using assms by fastforce
  have "int (length (before ! j)) = k"
    using assms(1) j(1) by simp
  then show "int (length island) = k + 1"
    unfolding j(2) migrate_nth [OF nonempty j(1)] by simp
qed

lemma evolve_generations_sizes:
  assumes "evolve_generations n self g = Inr (self', g')"
    and "1 \<le> population_size self div num_islands self"
    and "\<forall>island \<in> set (islands self).
           int (length island) \<le> population_size self div num_islands self + 1"
  shows "(\<forall>island \<in> set (islands self').
            int (length island) \<le> population_size self div num_islands self + 1)
       \<and> length (islands self') = length (islands self)
       \<and> population_size self' = population_size self \<and> num_islands self' = num_islands self
       \<and> generation self' = generation self + int n"
  using assms
proof (induction n arbitrary: self g)
  case 0
  then show ?case by simp
next
  case (Suc n)
  let ?k = "population_size self div num_islands self"
  from Suc.prems(1) obtain stats mid g1 where
      step: "evolve_generation self g = Inr (stats, mid, g1)"
      and rest: "evolve_generations n mid g1 = Inr (self', g')"
    by (auto simp: bind_err_eq_Inr)
  note fields = evolve_generation_history [OF step]
  from evolve_generation_sizes [OF step Suc.prems(2,3)] obtain before where
      before: "length before = length (islands self)"
        "\<forall>island \<in> set before. int (length island) = ?k"
      and isls: "islands mid = (if (generation self + 1) mod 5 = 0 \<and> 1 < length before
                                then migrate before else before)"
    by blast
  have sizes: "\<forall>island \<in> set (islands mid). int (length island) \<le> ?k + 1"
  proof (cases "(generation self + 1) mod 5 = 0 \<and> 1 < length before")
    case True
    with isls migrate_sizes [OF before(2) Suc.prems(2)] show ?thesis
      by simp
  next
    case False
    then have "islands mid = before"
      using isls by (simp only: if_False)
    with before(2) show ?thesis
      by simp
  qed
  have len: "length (islands mid) = length (islands self)"
    using isls before(1) by simp
  have "(\<forall>island \<in> set (islands self').
            int (length island) \<le> population_size mid div num_islands mid + 1)
       \<and> length (islands self') = length (islands mid)
       \<and> population_size self' = population_size mid \<and> num_islands self' = num_islands mid
       \<and> generation self' = generation mid + int n"
    by (rule Suc.IH [OF rest]) (use Suc.prems(2) sizes fields in simp_all)
  then show ?case
    by (simp add: fields len)
qed


section \<open>Whole runs\<close>

text \<open>
  Claim C1 fails on the code. Scenario A has two islands of two candidates. In the first
  generation the elite of an island is one candidate, so one child is made; when the draw
  of \<^verbatim>\<open>random.random()\<close> is below the crossover rate, the guard \<^verbatim>\<open>len(island) >= 2\<close>
  holds and \<^verbatim>\<open>random.sample\<close> is asked for two parents out of \<^verbatim>\<open>island[:1]\<close>, which
  raises \<^verbatim>\<open>ValueError\<close>. On the draws that are all zero the run of Scenario A ends with
  that exception, in its first generation and before any file is written.
\<close>

theorem scenario_A_raises:
  "run_evolution scenario_A (sconst 0) Map.empty = Inl ValueError"
  by (simp add: run_evolution_def create_and_run_def scenario_A_def scenario_A_init
        scenario_A_step)

text \<open>
  Claim C3 fails on the code. Scenario A is a valid configuration of one generation. On the
  draws that are all zero its evolver is built with an empty history, and its first
  generation raises \<^verbatim>\<open>ValueError\<close> where the two parents are sampled, which is the defect
  of claim C1, before the statistics of the generation are appended: the run does not
  leave a history of one record.
\<close>

theorem scenario_A_records_nothing:
  "init ''hello world'' ''hello'' 4 2 default_model default_model True (3 / 5) (2 / 5) (sconst 0)
     = Inr (default_evolver\<lparr>seed := ''hello world'', evaluation_criteria := ''hello'',
              population_size := 4,
              islands := [[Candidate ''gen0_island0_0'' ''hello world'' 0 None None,
                           Candidate ''gen0_island1_1'' ''hello world'' 0 None None],
                          [Candidate ''gen0_island0_0'' ''hello world'' 0 None None,
                           Candidate ''gen0_island1_1'' ''hello world'' 0 None None]]\<rparr>,
            sconst 0)
   \<and> history (default_evolver\<lparr>seed := ''hello world'', evaluation_criteria := ''hello'',
              population_size := 4,
              islands := [[Candidate ''gen0_island0_0'' ''hello world'' 0 None None,
                           Candidate ''gen0_island1_1'' ''hello world'' 0 None None],
                          [Candidate ''gen0_island0_0'' ''hello world'' 0 None None,
                           Candidate ''gen0_island1_1'' ''hello world'' 0 None None]]\<rparr>) = []
   \<and> evolve_generations 1
         (default_evolver\<lparr>seed := ''hello world'', evaluation_criteria := ''hello'',
              population_size := 4,
              islands := [[Candidate ''gen0_island0_0'' ''hello world'' 0 None None,
                           Candidate ''gen0_island1_1'' ''hello world'' 0 None None],
                          [Candidate ''gen0_island0_0'' ''hello world'' 0 None None,
                           Candidate ''gen0_island1_1'' ''hello world'' 0 None None]]\<rparr>)
         (sconst 0) = Inl ValueError
   \<and> create_and_run scenario_A (sconst 0) Map.empty = Inl ValueError"
proof -
  have "history (default_evolver\<lparr>seed := ''hello world'', evaluation_criteria := ''hello'',
              population_size := 4,
              islands := [[Candidate ''gen0_island0_0'' ''hello world'' 0 None None,
                           Candidate ''gen0_island1_1'' ''hello world'' 0 None None],
                          [Candidate ''gen0_island0_0'' ''hello world'' 0 None None,
                           Candidate ''gen0_island1_1'' ''hello world'' 0 None None]]\<rparr>) = []"
    by (simp add: default_evolver_def)
  moreover have "evolve_generations 1
         (default_evolver\<lparr>seed := ''hello world'', evaluation_criteria := ''hello'',
              population_size := 4,
              islands := [[Candidate ''gen0_island0_0'' ''hello world'' 0 None None,
                           Candidate ''gen0_island1_1'' ''hello world'' 0 None None],
                          [Candidate ''gen0_island0_0'' ''hello world'' 0 None None,
                           Candidate ''gen0_island1_1'' ''hello world'' 0 None None]]\<rparr>)
         (sconst 0) = Inl ValueError"
    by (simp add: scenario_A_step)
  moreover have "create_and_run scenario_A (sconst 0) Map.empty = Inl ValueError"
    by (simp add: create_and_run_def scenario_A_def scenario_A_init scenario_A_step)
  ultimately show ?thesis
    using scenario_A_init by blast
qed

text \<open>
  With no generation to run, \<^verbatim>\<open>run_evolution\<close> raises too: \<^verbatim>\<open>status\<close> is assigned in the
  body of the loop only.
\<close>

lemma run_evolution_no_generation:
  "run_evolution (scenario_A\<lparr>cfg_max_generations := 0\<rparr>) (sconst 0) Map.empty
     = Inl UnboundLocalError"
  by (simp add: run_evolution_def create_and_run_def scenario_A_def scenario_A_init)

text \<open>
  The runs that return do record every generation: a run of \<open>N\<close> generations of a freshly
  built evolver that returns leaves a history of exactly \<open>N\<close> records, the generation
  counter equal to the length of the history, and \<^verbatim>\<open>best_fitness\<close> non-decreasing along
  the history. The run returns on every sequence of draws when there is at least one
  island and the nominal island size \<^verbatim>\<open>population_size // num_islands\<close> is at least 4.
\<close>

lemma completed_run_history:
  "(create_and_run config g fs = Inr (ev, g', fs') \<longrightarrow>
      length (history ev) = nat (cfg_max_generations config)
      \<and> generation ev = int (length (history ev))
      \<and> sorted (map best_fitness (history ev)))
   \<and> (1 \<le> cfg_num_islands config
        \<and> 4 \<le> cfg_population_size config div cfg_num_islands config \<longrightarrow>
      (\<exists>ev g' fs'. create_and_run config g fs = Inr (ev, g', fs')))"
proof (intro conjI impI)
  assume "1 \<le> cfg_num_islands config
        \<and> 4 \<le> cfg_population_size config div cfg_num_islands config"
  then show "\<exists>ev g' fs'. create_and_run config g fs = Inr (ev, g', fs')"
    by (simp add: create_and_run_ok)
next
  assume "create_and_run config g fs = Inr (ev, g', fs')"
  then obtain ev0 g0 where
      built: "init (cfg_seed config) (cfg_evaluation_criteria config) (cfg_population_size config)
                (cfg_num_islands config) (cfg_mutation_model config) (cfg_evaluation_model config)
                (cfg_elitism config) (cfg_crossover_rate config) (cfg_mutation_rate config) g
              = Inr (ev0, g0)"
      and run: "evolve_generations (nat (cfg_max_generations config)) ev0 g0 = Inr (ev, g')"
    by (rule create_and_run_evolver)
  note fresh = init_fields [OF built] init_unscored [OF built]
  have "length (history ev) = length (history ev0) + nat (cfg_max_generations config)
      \<and> generation ev = generation ev0 + int (nat (cfg_max_generations config))
      \<and> sorted (map best_fitness (history ev))"
    using run by (rule evolve_generations_history) (simp_all add: fresh)
  then show "length (history ev) = nat (cfg_max_generations config)"
    and "generation ev = int (length (history ev))"
    and "sorted (map best_fitness (history ev))"
    by (simp_all add: fresh)
qed

text \<open>
  The run of \<open>ring_config\<close> returns with five records, and a run of two islands of four
  candidates returns.
\<close>

lemma completed_run_history_ring:
  "(\<exists>fs'. create_and_run ring_config (sconst 0) Map.empty = Inr (ring_final, sconst 0, fs'))
   \<and> length (history ring_final) = 5 \<and> generation ring_final = 5
   \<and> sorted (map best_fitness (history ring_final))
   \<and> 1 \<le> cfg_num_islands (ring_config\<lparr>cfg_population_size := 8\<rparr>)
   \<and> 4 \<le> cfg_population_size (ring_config\<lparr>cfg_population_size := 8\<rparr>)
           div cfg_num_islands (ring_config\<lparr>cfg_population_size := 8\<rparr>)
   \<and> (\<exists>ev g' fs'. create_and_run (ring_config\<lparr>cfg_population_size := 8\<rparr>) (sconst 0) Map.empty
                     = Inr (ev, g', fs'))"
proof -
  obtain fs' where
    run: "create_and_run ring_config (sconst 0) Map.empty = Inr (ring_final, sconst 0, fs')"
    using generation_loop_ok [OF ring_run [of "sconst 0"], where dir = "''.''"
            and task_id = "''ring''" and fs = Map.empty]
    by (auto simp: create_and_run_def ring_config_def ring_init)
  have sizes: "1 \<le> cfg_num_islands (ring_config\<lparr>cfg_population_size := 8\<rparr>)"
    "4 \<le> cfg_population_size (ring_config\<lparr>cfg_population_size := 8\<rparr>)
           div cfg_num_islands (ring_config\<lparr>cfg_population_size := 8\<rparr>)"
    by (simp_all add: ring_config_def)
  from completed_run_history
         [of ring_config "sconst 0" Map.empty ring_final "sconst 0" fs'] run
  have "length (history ring_final) = 5" "generation ring_final = 5"
    "sorted (map best_fitness (history ring_final))"
    by (simp_all add: ring_config_def)
  moreover from completed_run_history
         [of "ring_config\<lparr>cfg_population_size := 8\<rparr>" "sconst 0" Map.empty] sizes
  have "\<exists>ev g' fs'. create_and_run (ring_config\<lparr>cfg_population_size := 8\<rparr>) (sconst 0) Map.empty
                     = Inr (ev, g', fs')"
    by blast
  ultimately show ?thesis
    using run sizes by blast
qed

text \<open>
  Claim C4: after every number of generation steps of a freshly built evolver, the best
  candidate has a fitness no lower than that of every candidate scored in any of these
  generations on any island, it is one of these candidates, and its fitness is no lower
  than the fitness of the best candidate after any smaller number of steps of the same run
  (\<open>record_fitness\<close> is 0 while there is no best candidate).
\<close>

theorem best_candidate_is_running_maximum:
  assumes "init sd criteria psize nislands mmodel emodel elit crate mrate g0 = Inr (ev0, g1)"
    and "evolve_generations n ev0 g1 = Inr (ev, g)"
  shows "(\<forall>c \<in> set (observed n ev0 g1).
            \<exists>b. best_candidate ev = Some b \<and> fitness c \<le> fitness b)
       \<and> (\<forall>b. best_candidate ev = Some b \<longrightarrow> b \<in> set (observed n ev0 g1))
       \<and> (\<forall>m evm gm. m \<le> n \<and> evolve_generations m ev0 g1 = Inr (evm, gm) \<longrightarrow>
            record_fitness (best_candidate evm) \<le> record_fitness (best_candidate ev))"
proof (intro conjI allI impI ballI)
  have fresh: "\<forall>c \<in> set (concat (islands ev0)). 0 \<le> fitness c" "best_candidate ev0 = None"
    using init_unscored [OF assms(1)] init_fields [OF assms(1)] by simp_all
  note whole = evolve_generations_record [OF assms(2) fresh(1)]
  {
    fix c assume c: "c \<in> set (observed n ev0 g1)"
    then have "observed n ev0 g1 \<noteq> []"
      by auto
    with whole have "best_candidate ev \<noteq> None"
      by blast
    then obtain b where b: "best_candidate ev = Some b"
      by blast
    moreover from whole c have "fitness c \<le> record_fitness (best_candidate ev)"
      by blast
    ultimately show "\<exists>b. best_candidate ev = Some b \<and> fitness c \<le> fitness b"
      by (simp add: record_fitness_def)
  }
  {
    fix b assume "best_candidate ev = Some b"
    with whole fresh(2) show "b \<in> set (observed n ev0 g1)"
      by auto
  }
  {
    fix m evm gm
    assume "m \<le> n \<and> evolve_generations m ev0 g1 = Inr (evm, gm)"
    then have m: "n = m + (n - m)" and first: "evolve_generations m ev0 g1 = Inr (evm, gm)"
      by simp_all
    from assms(2) have rest: "evolve_generations (n - m) evm gm = Inr (ev, g)"
      by (subst (asm) m) (simp add: evolve_generations_add first)
    from evolve_generations_record [OF rest evolve_generations_nonneg [OF first fresh(1)]]
    show "record_fitness (best_candidate evm) \<le> record_fitness (best_candidate ev)"
      by blast
  }
qed

text \<open>
  In the run of \<open>ring_config\<close> the best candidate after five generations is the scored
  seed, which is among the candidates observed.
\<close>

theorem best_candidate_is_running_maximum_witness:
  "init ''x'' [] 2 2 default_model default_model True (3 / 5) (2 / 5) (sconst 0)
     = Inr (ring_start, sconst 0)
   \<and> evolve_generations 5 ring_start (sconst 0) = Inr (ring_final, sconst 0)
   \<and> best_candidate ring_final = Some ring_elite
   \<and> ring_elite \<in> set (observed 5 ring_start (sconst 0))
   \<and> evolve_generations 1 ring_start (sconst 0)
       = Inr (ring_at 1 [ring_stats 1 (1 / 2) 2 1], sconst 0)
   \<and> record_fitness (best_candidate (ring_at 1 [ring_stats 1 (1 / 2) 2 1]))
       \<le> record_fitness (best_candidate ring_final)"
proof -
  have best: "best_candidate ring_final = Some ring_elite"
    by (simp add: ring_final_def)
  have one: "evolve_generations 1 ring_start (sconst 0)
       = Inr (ring_at 1 [ring_stats 1 (1 / 2) 2 1], sconst 0)"
    by (simp add: ring_first)
  note run = best_candidate_is_running_maximum [OF ring_init ring_run, of "sconst 0"]
  from run best have member: "ring_elite \<in> set (observed 5 ring_start (sconst 0))"
    by blast
  have "(1::nat) \<le> 5"
    by simp
  with run one
  have "record_fitness (best_candidate (ring_at 1 [ring_stats 1 (1 / 2) 2 1]))
       \<le> record_fitness (best_candidate ring_final)"
    by blast
  with member have "ring_elite \<in> set (observed 5 ring_start (sconst 0))
     \<and> record_fitness (best_candidate (ring_at 1 [ring_stats 1 (1 / 2) 2 1]))
       \<le> record_fitness (best_candidate ring_final)"
    by blast
  with best one ring_init ring_run show ?thesis
    by blast
qed

text \<open>
  Claim C7 fails on the code for an evolver of one island: migration is guarded by
  \<^verbatim>\<open>len(self.islands) > 1\<close>. In the run of \<open>single_config\<close> the generation counter
  is 5 after the fifth step and the only island holds one candidate, its nominal size,
  not two.
\<close>

theorem migration_skips_single_island_counterexample:
  "init ''x'' [] 1 1 default_model default_model True (3 / 5) (2 / 5) (sconst 0)
     = Inr (single_start, sconst 0)
   \<and> evolve_generations 5 single_start (sconst 0)
     = Inr (single_at 5 [ring_stats 1 1 1 1, ring_stats 2 1 1 0, ring_stats 3 1 1 0,
                         ring_stats 4 1 1 0, ring_stats 5 1 1 0], sconst 0)
   \<and> generation (single_at 5 [ring_stats 1 1 1 1, ring_stats 2 1 1 0, ring_stats 3 1 1 0,
                               ring_stats 4 1 1 0, ring_stats 5 1 1 0]) mod 5 = 0
   \<and> map length (islands (single_at 5 [ring_stats 1 1 1 1, ring_stats 2 1 1 0,
                              ring_stats 3 1 1 0, ring_stats 4 1 1 0, ring_stats 5 1 1 0]))
     = [1]
   \<and> population_size single_start div num_islands single_start = 1"
proof -
  have "generation (single_at 5 [ring_stats 1 1 1 1, ring_stats 2 1 1 0, ring_stats 3 1 1 0,
                               ring_stats 4 1 1 0, ring_stats 5 1 1 0]) mod 5 = 0"
    and "map length (islands (single_at 5 [ring_stats 1 1 1 1, ring_stats 2 1 1 0,
                              ring_stats 3 1 1 0, ring_stats 4 1 1 0, ring_stats 5 1 1 0]))
     = [1]"
    and "population_size single_start div num_islands single_start = 1"
    by (simp_all add: single_at_def single_start_def default_evolver_def)
  with single_init single_run show ?thesis
    by blast
qed

text \<open>
  Claim C7, amended: in every run of a freshly built evolver with at least two islands and
  \<^verbatim>\<open>num_islands <= population_size\<close>, at every generation step that makes the generation
  counter a positive multiple of 5, the islands \<open>before\<close> that reproduction leaves all have
  the nominal size \<^verbatim>\<open>population_size // num_islands\<close>, and the step appends the first
  candidate of each island to the circularly next island (the last wraps to the first),
  as it is and without removing it from its own island, so that immediately afterwards
  every island holds one candidate more than the nominal size.
\<close>

theorem migration_adds_one_to_every_island:
  assumes "init sd criteria psize nislands mmodel emodel elit crate mrate g0 = Inr (ev0, g1)"
    and "evolve_generations n ev0 g1 = Inr (ev, g)"
    and "0 < n" and "n mod 5 = 0" and "2 \<le> nislands" and "nislands \<le> psize"
  shows "\<exists>mid gm before.
           evolve_generations (n - 1) ev0 g1 = Inr (mid, gm)
         \<and> list_all2 (reproduced mid) (islands mid) before
         \<and> length before = nat nislands
         \<and> islands ev = migrate before
         \<and> (\<forall>i < nat nislands.
               int (length (before ! i)) = psize div nislands
             \<and> islands ev ! ((i + 1) mod nat nislands)
                 = before ! ((i + 1) mod nat nislands) @ [hd (before ! i)]
             \<and> take (length (before ! i)) (islands ev ! i) = before ! i
             \<and> int (length (islands ev ! i)) = psize div nislands + 1)"
proof -
  let ?k = "psize div nislands"
  note fresh = init_fields [OF assms(1)]
  have k: "1 \<le> ?k"
    using assms(5,6) pos_imp_zdiv_pos_iff [of nislands psize] by simp
  have n: "n = (n - 1) + 1"
    using assms(3) by simp
  from assms(2) obtain mid gm where
      first: "evolve_generations (n - 1) ev0 g1 = Inr (mid, gm)"
      and last: "evolve_generations 1 mid gm = Inr (ev, g)"
    by (subst (asm) n, subst (asm) evolve_generations_add) (auto simp: bind_err_eq_Inr)
  from last obtain stats where step: "evolve_generation mid gm = Inr (stats, ev, g)"
    by (auto simp: bind_err_eq_Inr)
  have "length (islands ev0) = nat nislands"
    using fresh(7) by (metis length_map length_replicate)
  moreover have "\<forall>island \<in> set (islands ev0). int (length island) \<le> ?k + 1"
  proof
    fix island assume "island \<in> set (islands ev0)"
    then have "length island \<in> set (map length (islands ev0))"
      by simp
    then have "length island = nat ?k"
      unfolding fresh(7) by simp
    with k show "int (length island) \<le> ?k + 1"
      by simp
  qed
  ultimately have mid: "\<forall>island \<in> set (islands mid). int (length island) \<le> ?k + 1"
      "length (islands mid) = nat nislands" "population_size mid = psize"
      "num_islands mid = nislands" "generation mid = int (n - 1)"
    using evolve_generations_sizes [OF first] k by (simp_all add: fresh)
  have due: "(generation mid + 1) mod 5 = 0"
    using assms(3,4) mid(5) by (simp add: of_nat_diff) presburger
  from evolve_generation_sizes [OF step] k mid obtain before where
      before: "list_all2 (reproduced mid) (islands mid) before"
        "length before = nat nislands"
        "\<forall>island \<in> set before. int (length island) = ?k"
      and isls: "islands ev = (if (generation mid + 1) mod 5 = 0 \<and> 1 < length before
                               then migrate before else before)"
    by auto
  have moved: "islands ev = migrate before"
    using isls due before(2) assms(5) by simp
  have nonempty: "\<forall>island \<in> set before. island \<noteq> []"
    using before(3) k by fastforce
  have "int (length (before ! i)) = ?k
      \<and> islands ev ! ((i + 1) mod nat nislands)
          = before ! ((i + 1) mod nat nislands) @ [hd (before ! i)]
      \<and> take (length (before ! i)) (islands ev ! i) = before ! i
      \<and> int (length (islands ev ! i)) = ?k + 1"
    if "i < nat nislands" for i
  proof -
    from that have i: "i < length before"
      by (simp add: before(2))
    then have size: "int (length (before ! i)) = ?k"
      using before(3) by simp
    moreover have "islands ev ! ((i + 1) mod nat nislands)
          = before ! ((i + 1) mod nat nislands) @ [hd (before ! i)]"
      using migrate_next [OF nonempty i] by (simp add: moved before(2))
    moreover have "take (length (before ! i)) (islands ev ! i) = before ! i"
      unfolding moved migrate_nth [OF nonempty i] by simp
    moreover have "int (length (islands ev ! i)) = ?k + 1"
      unfolding moved migrate_nth [OF nonempty i] using size by simp
    ultimately show ?thesis
      by blast
  qed
  with first before(1,2) moved show ?thesis
    by blast
qed

text \<open>
  In the run of \<open>ring_config\<close>, both islands hold two candidates after the fifth
  generation.
\<close>

theorem migration_adds_one_to_every_island_witness:
  "init ''x'' [] 2 2 default_model default_model True (3 / 5) (2 / 5) (sconst 0)
     = Inr (ring_start, sconst 0)
   \<and> evolve_generations 5 ring_start (sconst 0) = Inr (ring_final, sconst 0)
   \<and> (0::nat) < 5 \<and> (5::nat) mod 5 = 0 \<and> (2::int) \<le> 2
   \<and> int (length (islands ring_final ! 0)) = 2 div 2 + 1
   \<and> int (length (islands ring_final ! 1)) = 2 div 2 + 1"
proof -
  from migration_adds_one_to_every_island [OF ring_init ring_run, of "sconst 0"]
  have "\<forall>i < nat 2. int (length (islands ring_final ! i)) = 2 div 2 + 1"
    by auto
  then have "int (length (islands ring_final ! 0)) = 2 div 2 + 1"
    and "int (length (islands ring_final ! 1)) = 2 div 2 + 1"
    by simp_all
  with ring_init ring_run show ?thesis
    by simp
qed

section \<open>The best candidate as an island member\<close>

text \<open>
  The field \<open>best_in_islands\<close> stands for an identity of objects. The values agree with
  it: whenever it is set after a generation, the best candidate is the first member of an
  island, with the fitness it was scored with. The evolver that the constructor builds and
  the one read from a checkpoint start with the field unset.
\<close>

lemma sort_by_fitness_head:
  assumes "\<forall>c \<in> set xs. fitness c \<le> fitness x"
  shows "sort_by_fitness (x # xs) = x # sort_by_fitness xs"
proof (cases "sort_by_fitness xs")
  case Nil
  then show ?thesis
    by (simp add: sort_by_fitness_def)
next
  case (Cons y ys)
  then have "y \<in> set (sort_by_fitness xs)"
    by simp
  then have "y \<in> set xs"
    by (simp add: sort_by_fitness_def)
  with assms have "fitness y \<le> fitness x"
    by blast
  with Cons show ?thesis
    by (simp add: sort_by_fitness_def)
qed

lemma evaluate_all_nonzero: "c \<in> set (evaluate_all self island) \<Longrightarrow> fitness c \<noteq> 0"
proof -
  assume "c \<in> set (evaluate_all self island)"
  then obtain d where "d \<in> set island"
      and c: "c = (if fitness d = 0 then d\<lparr>fitness := evaluate self d\<rparr> else d)"
    by (auto simp: evaluate_all_def)
  show "fitness c \<noteq> 0"
  proof (cases "fitness d = 0")
    case True
    with c evaluate_bounds [of self d] show ?thesis
      by simp
  next
    case False
    with c show ?thesis
      by simp
  qed
qed

lemma process_island_head:
  assumes "process_island self island best improved g = Inr (new_island, best', improved', g')"
    and "elitism self"
  shows "improved' = improved + 1 \<and> new_island \<noteq> []
           \<and> best' = Some (hd new_island) \<and> fitness (hd new_island) \<noteq> 0
       \<or> improved' = improved \<and> best' = best
           \<and> (island \<noteq> [] \<and> best = Some (hd island) \<and> fitness (hd island) \<noteq> 0
                \<longrightarrow> new_island \<noteq> [] \<and> hd new_island = hd island)"
proof -
  let ?mark = "case best of Some b \<Rightarrow> fitness b | None \<Rightarrow> 0"
  from process_island_result [OF assms(1)] obtain leader rest children where
      sorted: "sort_by_fitness (evaluate_all self island) = leader # rest"
      and best': "best' = (if ?mark < fitness leader then Some leader else best)"
      and improved': "improved' = (if ?mark < fitness leader then improved + 1 else improved)"
      and new: "new_island
              = (if elitism self then take (max 1 (length island div 5)) (leader # rest) else [])
                @ children"
    by blast
  have "take (max 1 (length island div 5)) (leader # rest)
      = leader # take (max 1 (length island div 5) - 1) rest"
    by (cases "max 1 (length island div 5)") simp_all
  with new assms(2) have head: "new_island \<noteq> []" "hd new_island = leader"
    by simp_all
  show ?thesis
  proof (cases "?mark < fitness leader")
    case True
    have "leader \<in> set (sort_by_fitness (evaluate_all self island))"
      by (simp add: sorted)
    then have "leader \<in> set (evaluate_all self island)"
      by (simp add: sort_by_fitness_def)
    then have "fitness leader \<noteq> 0"
      by (rule evaluate_all_nonzero)
    with True best' improved' head show ?thesis
      by simp
  next
    case False
    have "new_island \<noteq> [] \<and> hd new_island = hd island"
      if kept: "island \<noteq> []" "best = Some (hd island)" "fitness (hd island) \<noteq> 0"
    proof -
      from kept(1) obtain b others where island: "island = b # others"
        by (cases island) auto
      with kept have b: "best = Some b" "fitness b \<noteq> 0"
        by simp_all
      with island have scored: "evaluate_all self island = b # evaluate_all self others"
        by (simp add: evaluate_all_def)
      have "\<forall>c \<in> set (evaluate_all self others). fitness c \<le> fitness b"
      proof
        fix c assume "c \<in> set (evaluate_all self others)"
        then have "c \<in> set (evaluate_all self island)"
          by (simp add: scored)
        with sorted have "fitness c \<le> fitness leader"
          by (rule sort_by_fitness_leader)
        with False b(1) show "fitness c \<le> fitness b"
          by simp
      qed
      then have "sort_by_fitness (b # evaluate_all self others)
          = b # sort_by_fitness (evaluate_all self others)"
        by (rule sort_by_fitness_head)
      with sorted scored have "leader = b"
        by simp
      with head island show ?thesis
        by simp
    qed
    with False best' improved' show ?thesis
      by simp
  qed
qed

lemma island_loop_head:
  assumes "island_loop self isls best improved g = Inr (new_islands, best', improved', g')"
    and "elitism self"
  shows "improved \<le> improved'
     \<and> (improved < improved' \<longrightarrow>
          (\<exists>island \<in> set new_islands.
             island \<noteq> [] \<and> best' = Some (hd island) \<and> fitness (hd island) \<noteq> 0))
     \<and> (improved' = improved \<longrightarrow>
          best' = best
          \<and> (\<forall>island \<in> set isls.
                island \<noteq> [] \<and> best = Some (hd island) \<and> fitness (hd island) \<noteq> 0 \<longrightarrow>
                (\<exists>new_island \<in> set new_islands.
                   new_island \<noteq> [] \<and> hd new_island = hd island)))"
  using assms(1)
proof (induction isls arbitrary: best improved g new_islands)
  case Nil
  then show ?case by simp
next
  case (Cons island rest)
  from Cons.prems obtain new_island b1 i1 g1 new_rest where
      first: "process_island self island best improved g = Inr (new_island, b1, i1, g1)"
      and loop: "island_loop self rest b1 i1 g1 = Inr (new_rest, best', improved', g')"
      and new: "new_islands = new_island # new_rest"
    by (auto simp: bind_err_eq_Inr)
  note step = process_island_head [OF first assms(2)]
  note later = Cons.IH [OF loop]
  from step have le: "improved \<le> i1"
    by auto
  from later have le': "i1 \<le> improved'"
    by blast
  have "\<exists>island \<in> set new_islands.
          island \<noteq> [] \<and> best' = Some (hd island) \<and> fitness (hd island) \<noteq> 0"
    if "improved < improved'"
  proof (cases "i1 < improved'")
    case True
    with later new show ?thesis
      by auto
  next
    case False
    with le' have same: "improved' = i1"
      by simp
    with that step have "new_island \<noteq> [] \<and> b1 = Some (hd new_island)
        \<and> fitness (hd new_island) \<noteq> 0"
      by auto
    moreover from later same have "best' = b1"
      by blast
    ultimately show ?thesis
      using new by auto
  qed
  moreover have "best' = best
     \<and> (\<forall>island \<in> set (island # rest).
           island \<noteq> [] \<and> best = Some (hd island) \<and> fitness (hd island) \<noteq> 0 \<longrightarrow>
           (\<exists>new_island \<in> set new_islands. new_island \<noteq> [] \<and> hd new_island = hd island))"
    if "improved' = improved"
  proof -
    from that le le' have same: "i1 = improved" "improved' = i1"
      by simp_all
    with step have kept: "b1 = best"
        "island \<noteq> [] \<and> best = Some (hd island) \<and> fitness (hd island) \<noteq> 0
           \<longrightarrow> new_island \<noteq> [] \<and> hd new_island = hd island"
      by auto
    from later same(2) have rest: "best' = b1"
        "\<forall>island \<in> set rest.
            island \<noteq> [] \<and> b1 = Some (hd island) \<and> fitness (hd island) \<noteq> 0 \<longrightarrow>
            (\<exists>new_island \<in> set new_rest. new_island \<noteq> [] \<and> hd new_island = hd island)"
      by blast+
    show ?thesis
      using kept rest new by auto
  qed
  ultimately show ?case
    using le le' by auto
qed

lemma migrate_head:
  assumes "\<forall>island \<in> set isls. island \<noteq> []" and "island \<in> set isls"
  shows "\<exists>island' \<in> set (migrate isls). island' \<noteq> [] \<and> hd island' = hd island"
proof -
  from assms(2) obtain j where j: "j < length isls" "island = isls ! j"
    by (auto simp: in_set_conv_nth)
  have "migrate isls ! j \<in> set (migrate isls)"
    using j(1) by (simp add: migrate_length)
  moreover have "migrate isls ! j \<noteq> []" "hd (migrate isls ! j) = hd island"
    using assms j by (simp_all add: migrate_nth [OF assms(1) j(1)])
  ultimately show ?thesis
    by blast
qed

lemma evolve_generation_shared:
  assumes "evolve_generation self g = Inr (stats, self', g')"
  shows "\<exists>new improved.
           island_loop (self\<lparr>generation := generation self + 1\<rparr>) (islands self)
             (best_candidate self) 0 g = Inr (new, best_candidate self', improved, g')
         \<and> islands self' = (if (generation self + 1) mod 5 = 0 \<and> 1 < length new
                             then migrate new else new)
         \<and> best_in_islands self' = (elitism self \<and> (0 < improved \<or> best_in_islands self))"
proof -
  let ?self = "self\<lparr>generation := generation self + 1\<rparr>"
  from assms obtain r where "island_loop ?self (islands self) (best_candidate self) 0 g = Inr r"
    by (auto simp: evolve_generation_def Let_def bind_err_eq_Inr)
  then obtain new best improved g1 where
      loop: "island_loop ?self (islands self) (best_candidate self) 0 g
               = Inr (new, best, improved, g1)"
    by (cases r) auto
  have "g1 = g' \<and> best_candidate self' = best
      \<and> islands self' = (if (generation self + 1) mod 5 = 0 \<and> 1 < length new
                          then migrate new else new)
      \<and> best_in_islands self' = (elitism self \<and> (0 < improved \<or> best_in_islands self))"
  proof (cases "(generation self + 1) mod 5 = 0 \<and> 1 < length new")
    case True
    with assms loop show ?thesis
      by (auto simp: evolve_generation_def Let_def)
  next
    case False
    with assms loop show ?thesis
      by (auto simp: evolve_generation_def Let_def)
  qed
  with loop show ?thesis
    by blast
qed

lemma evolve_generation_member:
  assumes "evolve_generation self g = Inr (stats, self', g')"
    and "best_in_islands self \<longrightarrow>
           (\<exists>island \<in> set (islands self).
              island \<noteq> [] \<and> best_candidate self = Some (hd island) \<and> fitness (hd island) \<noteq> 0)"
    and "best_in_islands self'"
  shows "\<exists>island \<in> set (islands self').
           island \<noteq> [] \<and> best_candidate self' = Some (hd island) \<and> fitness (hd island) \<noteq> 0"
proof -
  let ?self = "self\<lparr>generation := generation self + 1\<rparr>"
  from evolve_generation_shared [OF assms(1)] obtain new improved where
      loop: "island_loop ?self (islands self) (best_candidate self) 0 g
               = Inr (new, best_candidate self', improved, g')"
      and isls: "islands self' = (if (generation self + 1) mod 5 = 0 \<and> 1 < length new
                                  then migrate new else new)"
      and shared: "best_in_islands self' = (elitism self \<and> (0 < improved \<or> best_in_islands self))"
    by blast
  from shared assms(3) have elit: "elitism ?self" "elitism self"
      and how: "0 < improved \<or> best_in_islands self"
    by simp_all
  note heads = island_loop_head [OF loop elit(1)]
  have before: "\<exists>island \<in> set new.
      island \<noteq> [] \<and> best_candidate self' = Some (hd island) \<and> fitness (hd island) \<noteq> 0"
  proof (cases "0 < improved")
    case True
    with heads show ?thesis
      by blast
  next
    case False
    then have none: "improved = 0"
      by simp
    with how assms(2) obtain island where island: "island \<in> set (islands self)"
        "island \<noteq> []" "best_candidate self = Some (hd island)" "fitness (hd island) \<noteq> 0"
      by blast
    from heads none have "best_candidate self' = best_candidate self"
      by blast
    moreover from heads none island
    obtain new_island where "new_island \<in> set new" "new_island \<noteq> []"
        "hd new_island = hd island"
      by blast
    ultimately show ?thesis
      using island(3,4) by auto
  qed
  have nonempty: "\<forall>island \<in> set new. island \<noteq> []"
  proof
    fix island assume "island \<in> set new"
    then obtain j where j: "j < length new" "island = new ! j"
      by (auto simp: in_set_conv_nth)
    from island_loop_reproduced [OF loop] have "list_all2 (reproduced self) (islands self) new"
      by simp
    with j have "reproduced self (islands self ! j) island"
      by (simp add: list_all2_conv_all_nth)
    then obtain children where old: "islands self ! j \<noteq> []"
        and parts: "island = (if elitism self
              then take (max 1 (length (islands self ! j) div 5))
                     (sort_by_fitness (evaluate_all self (islands self ! j)))
              else []) @ children"
      by (rule reproduced_parts)
    from old have "sort_by_fitness (evaluate_all self (islands self ! j)) \<noteq> []"
      by (metis evaluate_all_length length_0_conv sort_by_fitness_length)
    with parts elit(2) show "island \<noteq> []"
      by simp
  qed
  show ?thesis
  proof (cases "(generation self + 1) mod 5 = 0 \<and> 1 < length new")
    case True
    from before obtain island where island: "island \<in> set new" "island \<noteq> []"
        "best_candidate self' = Some (hd island)" "fitness (hd island) \<noteq> 0"
      by blast
    from migrate_head [OF nonempty island(1)] obtain island' where
        "island' \<in> set (migrate new)" "island' \<noteq> []" "hd island' = hd island"
      by blast
    with island True isls show ?thesis
      by auto
  next
    case False
    then have "islands self' = new"
      using isls by (simp only: if_False)
    with before show ?thesis
      by simp
  qed
qed

lemma evolve_generations_member:
  assumes "evolve_generations n self g = Inr (self', g')"
    and "best_in_islands self \<longrightarrow>
           (\<exists>island \<in> set (islands self).
              island \<noteq> [] \<and> best_candidate self = Some (hd island) \<and> fitness (hd island) \<noteq> 0)"
  shows "best_in_islands self' \<longrightarrow>
           (\<exists>island \<in> set (islands self').
              island \<noteq> [] \<and> best_candidate self' = Some (hd island) \<and> fitness (hd island) \<noteq> 0)"
  using assms
proof (induction n arbitrary: self g)
  case 0
  then show ?case by simp
next
  case (Suc n)
  from Suc.prems(1) obtain stats mid g1 where
      step: "evolve_generation self g = Inr (stats, mid, g1)"
      and rest: "evolve_generations n mid g1 = Inr (self', g')"
    by (auto simp: bind_err_eq_Inr)
  have "best_in_islands mid \<longrightarrow>
           (\<exists>island \<in> set (islands mid).
              island \<noteq> [] \<and> best_candidate mid = Some (hd island) \<and> fitness (hd island) \<noteq> 0)"
    using evolve_generation_member [OF step Suc.prems(2)] by blast
  with rest show ?case
    by (rule Suc.IH)
qed

lemma init_not_shared:
  assumes "init sd criteria psize nislands mmodel emodel elit crate mrate g = Inr (ev, g')"
  shows "\<not> best_in_islands ev"
  using assms init_result [of sd criteria psize nislands mmodel emodel elit crate mrate g]
  by auto

lemma fresh_run_member:
  assumes "init sd criteria psize nislands mmodel emodel elit crate mrate g0 = Inr (ev0, g1)"
    and "evolve_generations n ev0 g1 = Inr (ev, g)"
    and "best_in_islands ev"
  shows "\<exists>island \<in> set (islands ev). island \<noteq> [] \<and> best_candidate ev = Some (hd island)"
  using evolve_generations_member [OF assms(2)] init_not_shared [OF assms(1)] assms(3)
  by blast

end
